theory Spec2Isabelle
  imports Main "HOL-Library.Word"
begin

section \<open>Cattle: memory tape, instruction tree and interpreter\<close>

text \<open>
  A shallow embedding of the Cattle Brainfuck toolkit: the memory tape of
  \<^verbatim>\<open>cattle-tape.c\<close>, the instruction nodes of \<^verbatim>\<open>cattle-instruction.c\<close> and the
  execution engine \<^verbatim>\<open>run_real\<close> of \<^verbatim>\<open>cattle-interpreter.c\<close>.

  All objects are live: the guards \<^verbatim>\<open>G_LIKELY (!self->priv->disposed)\<close> and the
  GObject type checks of the entry points are taken to succeed, and reference counting
  is not modelled.
\<close>

subsection \<open>The tape (cattle-tape.c)\<close>

text \<open>
  A cell is a \<^verbatim>\<open>gchar\<close>, a chunk an array of \<^verbatim>\<open>CHUNK_SIZE\<close> cells. The chunk list is a
  \<^verbatim>\<open>GList\<close>: its nodes are given here in list order, each with its address and the
  chunk it points to. A pointer to a node is the node's address, and \<^verbatim>\<open>NULL\<close> is 0,
  so that a bookmark keeps naming its node when chunks are added in front of it.
  The field \<open>head\<close> is the whole list. The offset and the two limits are \<^verbatim>\<open>gint\<close>s
  that never go below 0, the one decrement being guarded by \<^verbatim>\<open>offset == 0\<close>. A cell is
  read as a signed value by \<open>sint\<close>.
\<close>

type_synonym gchar = "8 word"
type_synonym chunk = "gchar list"
type_synonym glist = "(nat \<times> chunk) list"

abbreviation (input) NULL :: nat where
  "NULL \<equiv> 0"

definition CHUNK_SIZE :: nat where
  "CHUNK_SIZE = 128"

record cattle_tape =
  current :: nat
  head :: glist
  offset :: nat
  lower_limit :: nat
  upper_limit :: nat
  bookmarks :: "(nat \<times> nat) list"

text \<open>\<^verbatim>\<open>g_slice_alloc0 (CHUNK_SIZE * sizeof (gchar))\<close>: a chunk of zeros.\<close>

definition alloc0 :: chunk where
  "alloc0 = replicate CHUNK_SIZE 0"

text \<open>The address of a node that the list does not hold yet (never \<^verbatim>\<open>NULL\<close>).\<close>

fun new_node :: "glist \<Rightarrow> nat" where
  "new_node [] = 1"
| "new_node (n # ns) = max (Suc (fst n)) (new_node ns)"

text \<open>\<^verbatim>\<open>g_list_previous\<close> and \<^verbatim>\<open>g_list_next\<close> of the node at address \<open>p\<close>.\<close>

fun g_list_previous :: "glist \<Rightarrow> nat \<Rightarrow> nat" where
  "g_list_previous (m # n # ns) p =
     (if fst n = p then fst m else g_list_previous (n # ns) p)"
| "g_list_previous ns p = NULL"

fun g_list_next :: "glist \<Rightarrow> nat \<Rightarrow> nat" where
  "g_list_next (m # n # ns) p =
     (if fst m = p then fst n else g_list_next (n # ns) p)"
| "g_list_next ns p = NULL"

definition g_list_prepend :: "glist \<Rightarrow> chunk \<Rightarrow> glist" where
  "g_list_prepend ns c = (new_node ns, c) # ns"

definition g_list_append :: "glist \<Rightarrow> chunk \<Rightarrow> glist" where
  "g_list_append ns c = ns @ [(new_node ns, c)]"

text \<open>\<^verbatim>\<open>node->data\<close>, and the list after a store into the chunk of a node.\<close>

fun node_data :: "glist \<Rightarrow> nat \<Rightarrow> chunk" where
  "node_data [] p = []"
| "node_data (n # ns) p = (if fst n = p then snd n else node_data ns p)"

fun node_store :: "glist \<Rightarrow> nat \<Rightarrow> nat \<Rightarrow> gchar \<Rightarrow> glist" where
  "node_store [] p i v = []"
| "node_store (n # ns) p i v =
     (if fst n = p then (fst n, (snd n)[i := v]) # ns else n # node_store ns p i v)"

definition cattle_tape_init :: cattle_tape where
  "cattle_tape_init =
     \<lparr>current = new_node [], head = g_list_append [] alloc0, offset = 0,
      lower_limit = 0, upper_limit = 0, bookmarks = []\<rparr>"

definition cattle_tape_set_current_value :: "cattle_tape \<Rightarrow> gchar \<Rightarrow> cattle_tape" where
  "cattle_tape_set_current_value t v =
     t\<lparr>head := node_store (head t) (current t) (offset t) v\<rparr>"

definition cattle_tape_get_current_value :: "cattle_tape \<Rightarrow> gchar" where
  "cattle_tape_get_current_value t = node_data (head t) (current t) ! offset t"

definition cattle_tape_move_left :: "cattle_tape \<Rightarrow> cattle_tape" where
  "cattle_tape_move_left t =
     (if offset t = 0 then
        (let t1 = (if g_list_previous (head t) (current t) = NULL
                   then t\<lparr>head := g_list_prepend (head t) alloc0,
                          lower_limit := CHUNK_SIZE - 1\<rparr>
                   else t)
         in t1\<lparr>current := g_list_previous (head t1) (current t1),
                offset := CHUNK_SIZE - 1\<rparr>)
      else
        (let t1 = t\<lparr>offset := offset t - 1\<rparr>
         in if g_list_previous (head t1) (current t1) = NULL
               \<and> offset t1 < lower_limit t1
            then t1\<lparr>lower_limit := offset t1\<rparr> else t1))"

definition cattle_tape_move_right :: "cattle_tape \<Rightarrow> cattle_tape" where
  "cattle_tape_move_right t =
     (if offset t = CHUNK_SIZE - 1 then
        (let t1 = (if g_list_next (head t) (current t) = NULL
                   then t\<lparr>head := g_list_append (head t) alloc0,
                          upper_limit := 0\<rparr>
                   else t)
         in t1\<lparr>current := g_list_next (head t1) (current t1),
                offset := 0\<rparr>)
      else
        (let t1 = t\<lparr>offset := offset t + 1\<rparr>
         in if g_list_next (head t1) (current t1) = NULL
               \<and> offset t1 > upper_limit t1
            then t1\<lparr>upper_limit := offset t1\<rparr> else t1))"

definition cattle_tape_is_at_beginning :: "cattle_tape \<Rightarrow> bool" where
  "cattle_tape_is_at_beginning t \<longleftrightarrow>
     g_list_previous (head t) (current t) = NULL \<and> offset t = lower_limit t"

definition cattle_tape_is_at_end :: "cattle_tape \<Rightarrow> bool" where
  "cattle_tape_is_at_end t \<longleftrightarrow>
     g_list_next (head t) (current t) = NULL \<and> offset t = upper_limit t"

definition cattle_tape_push_bookmark :: "cattle_tape \<Rightarrow> cattle_tape" where
  "cattle_tape_push_bookmark t =
     t\<lparr>bookmarks := (current t, offset t) # bookmarks t\<rparr>"

text \<open>
  \<^verbatim>\<open>g_slist_remove (bookmarks, bookmark)\<close> removes the first node holding the pointer
  \<^verbatim>\<open>bookmark\<close>, which was read from the first node: the rest of the list remains.
\<close>

definition cattle_tape_pop_bookmark :: "cattle_tape \<Rightarrow> bool \<times> cattle_tape" where
  "cattle_tape_pop_bookmark t =
     (case bookmarks t of
        [] \<Rightarrow> (False, t)
      | bookmark # rest \<Rightarrow>
          (True, t\<lparr>bookmarks := rest, current := fst bookmark, offset := snd bookmark\<rparr>))"

subsection \<open>Instructions (cattle-instruction.c)\<close>

datatype cattle_instruction_value =
    CATTLE_INSTRUCTION_NONE
  | CATTLE_INSTRUCTION_MOVE_LEFT
  | CATTLE_INSTRUCTION_MOVE_RIGHT
  | CATTLE_INSTRUCTION_INCREASE
  | CATTLE_INSTRUCTION_DECREASE
  | CATTLE_INSTRUCTION_LOOP_BEGIN
  | CATTLE_INSTRUCTION_LOOP_END
  | CATTLE_INSTRUCTION_READ
  | CATTLE_INSTRUCTION_PRINT
  | CATTLE_INSTRUCTION_DUMP_TAPE

text \<open>
  The private fields \<^verbatim>\<open>value\<close>, \<^verbatim>\<open>quantity\<close>, \<^verbatim>\<open>next\<close> and \<^verbatim>\<open>loop\<close> of a node, named by
  their getters; a \<^verbatim>\<open>NULL\<close> edge is \<open>None\<close>. The nodes a node owns form a tree.
\<close>

datatype cattle_instruction = Instruction
  (cattle_instruction_get_value: cattle_instruction_value)
  (cattle_instruction_get_quantity: int)
  (cattle_instruction_get_next: "cattle_instruction option")
  (cattle_instruction_get_loop: "cattle_instruction option")

text \<open>\<^verbatim>\<open>cattle_instruction_init\<close>: the node \<^verbatim>\<open>cattle_instruction_new\<close> returns.\<close>

definition cattle_instruction_new :: cattle_instruction where
  "cattle_instruction_new = Instruction CATTLE_INSTRUCTION_NONE 1 None None"

subsection \<open>Configuration, program and signal handlers\<close>

text \<open>
  \<^verbatim>\<open>cattle-configuration.c\<close> and \<^verbatim>\<open>cattle-program.c\<close> are not among the files
  modelled here: the interpreter reads a configuration through
  \<^verbatim>\<open>cattle_configuration_get_on_eof_action\<close> and
  \<^verbatim>\<open>cattle_configuration_get_debug_is_enabled\<close>, and a program through
  \<^verbatim>\<open>cattle_program_get_instructions\<close> and \<^verbatim>\<open>cattle_program_get_input\<close>, so both are
  records of what these getters return.

  A text is the list of its code points (\<^verbatim>\<open>gunichar\<close>), none of them 0; the model
  stops at a 0 as C does at the terminator.
\<close>

type_synonym gunichar = "32 word"
type_synonym utf8 = "gunichar list"

datatype cattle_on_eof_action =
    CATTLE_ON_EOF_STORE_ZERO
  | CATTLE_ON_EOF_STORE_EOF
  | CATTLE_ON_EOF_DO_NOTHING

record cattle_configuration =
  cattle_configuration_get_on_eof_action :: cattle_on_eof_action
  cattle_configuration_get_debug_is_enabled :: bool

record cattle_program =
  cattle_program_get_instructions :: cattle_instruction
  cattle_program_get_input :: "utf8 option"

text \<open>
  The handlers connected to the three signals, over a state \<open>'w\<close> of the world outside
  the interpreter. The input handler is given \<^verbatim>\<open>&(self->priv->input)\<close> and returns what
  it leaves there; the debug handler may move the tape. Each returns the value the
  emission stores into \<^verbatim>\<open>success\<close>.
\<close>

record 'w cattle_handlers =
  input_request :: "'w \<Rightarrow> utf8 option \<Rightarrow> bool \<times> utf8 option \<times> 'w"
  output_request :: "'w \<Rightarrow> gchar \<Rightarrow> bool \<times> 'w"
  debug_request :: "'w \<Rightarrow> cattle_tape \<Rightarrow> bool \<times> cattle_tape \<times> 'w"

text \<open>A signal emission with what it returned; the output signal carries its argument.\<close>

datatype signal = INPUT_REQUEST bool | OUTPUT_REQUEST gchar bool | DEBUG_REQUEST bool

subsection \<open>The interpreter (cattle-interpreter.c)\<close>

text \<open>
  The private fields of an interpreter, with the handlers connected to it, the state
  of the world they act on, and the log \<open>emitted\<close> of the signals emitted so far,
  which no function reads.
\<close>

record 'w cattle_interpreter =
  configuration :: cattle_configuration
  program :: cattle_program
  tape :: cattle_tape
  had_input :: bool
  input :: "utf8 option"
  input_cursor :: "utf8 option"
  end_of_input_reached :: bool
  handlers :: "'w cattle_handlers"
  world :: 'w
  emitted :: "signal list"

text \<open>
  What a call of \<^verbatim>\<open>run_real\<close> comes to: it returns \<^verbatim>\<open>success\<close>, or it is still running
  when the fuel of the model is used up, or it reads the uninitialised \<^verbatim>\<open>temp\<close> or
  dereferences a \<^verbatim>\<open>NULL\<close> input cursor.
\<close>

datatype 'a outcome = Returned bool 'a | OutOfFuel | Fault

definition EOF :: gchar where
  "EOF = - 1"

definition g_utf8_get_char :: "utf8 \<Rightarrow> gunichar" where
  "g_utf8_get_char p = (case p of [] \<Rightarrow> 0 | c # cs \<Rightarrow> c)"

definition g_utf8_next_char :: "utf8 \<Rightarrow> utf8" where
  "g_utf8_next_char p = tl p"

text \<open>
  \<^verbatim>\<open>input_cursor == NULL || g_utf8_get_char (input_cursor) == 0\<close>
\<close>

definition end_of_line :: "utf8 option \<Rightarrow> bool" where
  "end_of_line cursor = (case cursor of None \<Rightarrow> True | Some p \<Rightarrow> g_utf8_get_char p = 0)"

text \<open>
  Step 1 of a read: fetch more input if needed. The first component is the value the
  emission of \<^verbatim>\<open>input-request\<close> stored into \<^verbatim>\<open>success\<close>, or \<open>None\<close> when the signal
  was not emitted.
\<close>

definition fetch_more_input :: "'w cattle_interpreter \<Rightarrow> bool option \<times> 'w cattle_interpreter" where
  "fetch_more_input self =
     (if had_input self = False \<and> \<not> end_of_input_reached self
         \<and> end_of_line (input_cursor self)
      then
        (case input_request (handlers self) (world self) (input self) of
           (success, line, w) \<Rightarrow>
             (let self1 = self\<lparr>input := line, world := w,
                               emitted := emitted self @ [INPUT_REQUEST success]\<rparr>
              in if success = False then (Some success, self1)
                 else (Some success,
                       (if input self1 = None
                        then self1\<lparr>end_of_input_reached := True\<rparr>
                        else self1)\<lparr>input_cursor := input self1\<rparr>)))
      else (None, self))"

text \<open>
  Step 2 of a read: get the char and normalize it. The result is the new \<^verbatim>\<open>temp\<close>;
  \<open>None\<close> when \<^verbatim>\<open>g_utf8_get_char\<close> is given a \<^verbatim>\<open>NULL\<close> cursor.
\<close>

definition get_char_and_normalize ::
    "'w cattle_interpreter \<Rightarrow> (gchar \<times> 'w cattle_interpreter) option" where
  "get_char_and_normalize self =
     (if end_of_input_reached self then Some (EOF, self)
      else
        (case input_cursor self of
           None \<Rightarrow> None
         | Some p \<Rightarrow>
             (let temp = (ucast (g_utf8_get_char p) :: gchar)
              in if temp = 0 then
                   (if cattle_program_get_input (program self) = None
                    then Some (EOF, self\<lparr>end_of_input_reached := True\<rparr>)
                    else Some (temp, self))
                 else Some (temp, self\<lparr>input_cursor := Some (g_utf8_next_char p)\<rparr>))))"

text \<open>
  The \<^verbatim>\<open>for\<close> loop of the read case, which holds steps 1 and 2: \<open>n\<close> is the number of
  iterations left, \<open>temp\<close> is \<open>None\<close> as long as the variable is uninitialised.
\<close>

fun read_loop ::
    "nat \<Rightarrow> 'w cattle_interpreter \<Rightarrow> bool \<Rightarrow> gchar option
      \<Rightarrow> (bool \<times> gchar option \<times> 'w cattle_interpreter) option" where
  "read_loop 0 self success temp = Some (success, temp, self)"
| "read_loop (Suc n) self success temp =
     (case fetch_more_input self of
        (Some False, self1) \<Rightarrow> Some (False, temp, self1)
      | (fetched, self1) \<Rightarrow>
          (case get_char_and_normalize self1 of
             None \<Rightarrow> None
           | Some (temp', self2) \<Rightarrow>
               read_loop n self2 (case fetched of None \<Rightarrow> success | Some s \<Rightarrow> s)
                 (Some temp')))"

text \<open>Step 3 of a read, after the loop: perform the actual operation.\<close>

definition store_input :: "'w cattle_interpreter \<Rightarrow> gchar \<Rightarrow> 'w cattle_interpreter" where
  "store_input self temp =
     (if temp = EOF then
        (case cattle_configuration_get_on_eof_action (configuration self) of
           CATTLE_ON_EOF_STORE_ZERO \<Rightarrow>
             self\<lparr>tape := cattle_tape_set_current_value (tape self) 0\<rparr>
         | CATTLE_ON_EOF_STORE_EOF \<Rightarrow>
             self\<lparr>tape := cattle_tape_set_current_value (tape self) temp\<rparr>
         | CATTLE_ON_EOF_DO_NOTHING \<Rightarrow> self)
      else self\<lparr>tape := cattle_tape_set_current_value (tape self) temp\<rparr>)"

text \<open>The \<^verbatim>\<open>for\<close> loops of the print and dump cases, with their \<^verbatim>\<open>break\<close>.\<close>

fun print_loop :: "nat \<Rightarrow> 'w cattle_interpreter \<Rightarrow> bool \<Rightarrow> bool \<times> 'w cattle_interpreter" where
  "print_loop 0 self success = (success, self)"
| "print_loop (Suc n) self success =
     (let output = cattle_tape_get_current_value (tape self)
      in case output_request (handlers self) (world self) output of
           (success', w) \<Rightarrow>
             (let self1 = self\<lparr>world := w,
                               emitted := emitted self @ [OUTPUT_REQUEST output success']\<rparr>
              in if success' = False then (success', self1)
                 else print_loop n self1 success'))"

fun dump_loop :: "nat \<Rightarrow> 'w cattle_interpreter \<Rightarrow> bool \<Rightarrow> bool \<times> 'w cattle_interpreter" where
  "dump_loop 0 self success = (success, self)"
| "dump_loop (Suc n) self success =
     (case debug_request (handlers self) (world self) (tape self) of
        (success', t, w) \<Rightarrow>
          (let self1 = self\<lparr>tape := t, world := w,
                            emitted := emitted self @ [DEBUG_REQUEST success']\<rparr>
           in if success' = False then (success', self1)
              else dump_loop n self1 success'))"

text \<open>
  \<^verbatim>\<open>run_real\<close>. \<open>run_real_from\<close> is its \<^verbatim>\<open>do ... while\<close> loop, entered at
  \<open>instruction\<close> with the local variables \<open>success\<close> and \<open>temp\<close>; \<open>run_real_loop\<close>
  is the \<^verbatim>\<open>while\<close> loop of the loop-begin case. The inner \<open>case\<close> is the \<^verbatim>\<open>switch\<close>
  and gives the locals and the interpreter after it; the loop-end case returns from
  inside it. A quantity is a \<^verbatim>\<open>gint\<close> below \<^verbatim>\<open>G_MAXINT\<close>: the sum
  \<^verbatim>\<open>value + quantity\<close> is converted back to a \<^verbatim>\<open>gchar\<close>, which keeps its low 8 bits.
  Every call and every iteration takes one unit of fuel.
\<close>

fun run_real_from ::
    "nat \<Rightarrow> 'w cattle_interpreter \<Rightarrow> cattle_instruction \<Rightarrow> bool \<Rightarrow> gchar option
      \<Rightarrow> 'w cattle_interpreter outcome"
and run_real_loop ::
    "nat \<Rightarrow> 'w cattle_interpreter \<Rightarrow> cattle_instruction \<Rightarrow> bool
      \<Rightarrow> 'w cattle_interpreter outcome" where
  "run_real_from 0 self instruction success temp = OutOfFuel"
| "run_real_from (Suc n) self instruction success temp =
     (if cattle_instruction_get_value instruction = CATTLE_INSTRUCTION_LOOP_END
      then Returned success self
      else
       (let quantity = cattle_instruction_get_quantity instruction;
            t = tape self
        in case
            (case cattle_instruction_get_value instruction of
               CATTLE_INSTRUCTION_LOOP_BEGIN \<Rightarrow>
                 (case cattle_instruction_get_loop instruction of
                    Some loop \<Rightarrow>
                      (case run_real_loop n self loop success of
                         Returned success' self' \<Rightarrow> Returned success' (temp, self')
                       | OutOfFuel \<Rightarrow> OutOfFuel
                       | Fault \<Rightarrow> Fault)
                  | None \<Rightarrow> Returned success (temp, self))
             | CATTLE_INSTRUCTION_LOOP_END \<Rightarrow> Returned success (temp, self)
             | CATTLE_INSTRUCTION_MOVE_LEFT \<Rightarrow>
                 Returned success
                   (temp, self\<lparr>tape := (cattle_tape_move_left ^^ nat quantity) t\<rparr>)
             | CATTLE_INSTRUCTION_MOVE_RIGHT \<Rightarrow>
                 Returned success
                   (temp, self\<lparr>tape := (cattle_tape_move_right ^^ nat quantity) t\<rparr>)
             | CATTLE_INSTRUCTION_INCREASE \<Rightarrow>
                 Returned success
                   (temp, self\<lparr>tape := cattle_tape_set_current_value t
                      (cattle_tape_get_current_value t + word_of_int quantity)\<rparr>)
             | CATTLE_INSTRUCTION_DECREASE \<Rightarrow>
                 Returned success
                   (temp, self\<lparr>tape := cattle_tape_set_current_value t
                      (cattle_tape_get_current_value t - word_of_int quantity)\<rparr>)
             | CATTLE_INSTRUCTION_READ \<Rightarrow>
                 (case read_loop (nat quantity) self success temp of
                    Some (success', Some temp', self') \<Rightarrow>
                      Returned success' (Some temp', store_input self' temp')
                  | _ \<Rightarrow> Fault)
             | CATTLE_INSTRUCTION_PRINT \<Rightarrow>
                 (case print_loop (nat quantity) self success of
                    (success', self') \<Rightarrow> Returned success' (temp, self'))
             | CATTLE_INSTRUCTION_DUMP_TAPE \<Rightarrow>
                 (if cattle_configuration_get_debug_is_enabled (configuration self)
                  then (case dump_loop (nat quantity) self success of
                          (success', self') \<Rightarrow> Returned success' (temp, self'))
                  else Returned success (temp, self))
             | CATTLE_INSTRUCTION_NONE \<Rightarrow> Returned success (temp, self))
           of
             Returned success' (temp', self') \<Rightarrow>
               (case cattle_instruction_get_next instruction of
                  Some next_instruction \<Rightarrow>
                    (if success' then run_real_from n self' next_instruction success' temp'
                     else Returned success' self')
                | None \<Rightarrow> Returned success' self')
           | OutOfFuel \<Rightarrow> OutOfFuel
           | Fault \<Rightarrow> Fault))"
| "run_real_loop 0 self loop success = OutOfFuel"
| "run_real_loop (Suc n) self loop success =
     (if cattle_tape_get_current_value (tape self) \<noteq> 0 then
        (case run_real_from n self loop True None of
           Returned success' self' \<Rightarrow> run_real_loop n self' loop success'
         | OutOfFuel \<Rightarrow> OutOfFuel
         | Fault \<Rightarrow> Fault)
      else Returned success self)"

definition run_real :: "nat \<Rightarrow> 'w cattle_interpreter \<Rightarrow> cattle_instruction
      \<Rightarrow> 'w cattle_interpreter outcome" where
  "run_real n self instruction = run_real_from n self instruction True None"

definition cattle_interpreter_run :: "nat \<Rightarrow> 'w cattle_interpreter
      \<Rightarrow> 'w cattle_interpreter outcome" where
  "cattle_interpreter_run n self =
     (let instruction = cattle_program_get_instructions (program self);
          self1 = self\<lparr>input_cursor := cattle_program_get_input (program self)\<rparr>;
          self2 = (if input_cursor self1 \<noteq> None then self1\<lparr>had_input := True\<rparr> else self1)
      in run_real n self2 instruction)"

subsection \<open>An interpreter at work\<close>

text \<open>
  The interpreter \<^verbatim>\<open>cattle_interpreter_init\<close> makes, once a configuration and a program
  have been set and handlers connected: a fresh tape, no input yet.
\<close>

definition cattle_interpreter_new ::
    "cattle_configuration \<Rightarrow> cattle_program \<Rightarrow> 'w cattle_handlers \<Rightarrow> 'w
      \<Rightarrow> 'w cattle_interpreter" where
  "cattle_interpreter_new c p h w =
     \<lparr>configuration = c, program = p, tape = cattle_tape_init, had_input = False,
      input = None, input_cursor = None, end_of_input_reached = False,
      handlers = h, world = w, emitted = []\<rparr>"

text \<open>
  Handlers that replay a script: the world is the list of the values the output
  handler is still to return and the list of what the input handler is still to
  return and store. With its list used up the output handler succeeds and the input
  handler reports the end of the input.
\<close>

type_synonym script = "bool list \<times> (bool \<times> utf8 option) list"

definition scripted :: "script cattle_handlers" where
  "scripted =
     \<lparr>input_request = (\<lambda>(outs, ins) line.
         case ins of [] \<Rightarrow> (True, None, (outs, []))
         | (success, l) # ins' \<Rightarrow> (success, l, (outs, ins'))),
      output_request = (\<lambda>(outs, ins) c.
         case outs of [] \<Rightarrow> (True, ([], ins))
         | success # outs' \<Rightarrow> (success, (outs', ins))),
      debug_request = (\<lambda>w t. (True, t, w))\<rparr>"


text \<open>
  What the on-EOF action of the configuration makes of the tape.
\<close>

definition on_eof :: "cattle_configuration \<Rightarrow> cattle_tape \<Rightarrow> cattle_tape" where
  "on_eof c t =
     (case cattle_configuration_get_on_eof_action c of
        CATTLE_ON_EOF_STORE_ZERO \<Rightarrow> cattle_tape_set_current_value t 0
      | CATTLE_ON_EOF_STORE_EOF \<Rightarrow> cattle_tape_set_current_value t EOF
      | CATTLE_ON_EOF_DO_NOTHING \<Rightarrow> t)"

subsection \<open>Loading a program\<close>

text \<open>The error codes of \<^verbatim>\<open>cattle-program.h\<close>.\<close>

datatype cattle_program_error =
    CATTLE_PROGRAM_ERROR_BAD_UTF8
  | CATTLE_PROGRAM_ERROR_UNMATCHED_BRACKET
  | CATTLE_PROGRAM_ERROR_UNBALANCED_BRACKETS

text \<open>
  Modelled from the spec: \<^verbatim>\<open>cattle_program_load\<close> of \<^verbatim>\<open>cattle-program.c\<close>, a file
  that is missing; \<^verbatim>\<open>cattle-program.h\<close> declares it and the tests call it. The
  definitions below follow section 4.1 of the specification. The text to load is given
  as its code points, \<open>None\<close> for a string that is not valid UTF-8.

  The scan recognises the eight operators, \<^verbatim>\<open>#\<close> and the sentinel \<^verbatim>\<open>!\<close>; any other
  character is a comment. A run of one operator other than a bracket, with nothing in
  between, becomes one item with the length of the run. The chain being built is kept
  last item first, on top of the chains of the loops still open.
\<close>

datatype item = Op cattle_instruction_value int | Loop "item list"

definition operator :: "gunichar \<Rightarrow> cattle_instruction_value option" where
  "operator c =
     (if c = 43 then Some CATTLE_INSTRUCTION_INCREASE
      else if c = 45 then Some CATTLE_INSTRUCTION_DECREASE
      else if c = 60 then Some CATTLE_INSTRUCTION_MOVE_LEFT
      else if c = 62 then Some CATTLE_INSTRUCTION_MOVE_RIGHT
      else if c = 46 then Some CATTLE_INSTRUCTION_PRINT
      else if c = 44 then Some CATTLE_INSTRUCTION_READ
      else if c = 91 then Some CATTLE_INSTRUCTION_LOOP_BEGIN
      else if c = 93 then Some CATTLE_INSTRUCTION_LOOP_END
      else if c = 35 then Some CATTLE_INSTRUCTION_DUMP_TAPE
      else None)"

definition sentinel :: gunichar where
  "sentinel = 33"

fun scan ::
    "utf8 \<Rightarrow> gunichar option \<Rightarrow> item list \<Rightarrow> item list list
      \<Rightarrow> cattle_program_error + item list \<times> utf8 option" where
  "scan [] previous chain opened =
     (if opened = [] then Inr (rev chain, None)
      else Inl CATTLE_PROGRAM_ERROR_UNBALANCED_BRACKETS)"
| "scan (c # cs) previous chain opened =
     (if c = sentinel then
        (if opened = [] then Inr (rev chain, Some cs)
         else Inl CATTLE_PROGRAM_ERROR_UNBALANCED_BRACKETS)
      else
        (case operator c of
           None \<Rightarrow> scan cs (Some c) chain opened
         | Some CATTLE_INSTRUCTION_LOOP_BEGIN \<Rightarrow> scan cs (Some c) [] (chain # opened)
         | Some CATTLE_INSTRUCTION_LOOP_END \<Rightarrow>
             (case opened of
                [] \<Rightarrow> Inl CATTLE_PROGRAM_ERROR_UNMATCHED_BRACKET
              | parent # opened' \<Rightarrow>
                  scan cs (Some c)
                    (Loop (rev (Op CATTLE_INSTRUCTION_LOOP_END 1 # chain)) # parent) opened')
         | Some v \<Rightarrow>
             (case chain of
                Op v' quantity # chain' \<Rightarrow>
                  (if previous = Some c \<and> v' = v
                   then scan cs (Some c) (Op v (quantity + 1) # chain') opened
                   else scan cs (Some c) (Op v 1 # chain) opened)
              | _ \<Rightarrow> scan cs (Some c) (Op v 1 # chain) opened)))"

text \<open>
  The tree of a chain of items: each node owns the rest of its chain as \<^verbatim>\<open>next\<close>, a
  loop-begin node owns its body as \<^verbatim>\<open>loop\<close>.
\<close>

fun chain_tree :: "item list \<Rightarrow> cattle_instruction option" where
  "chain_tree [] = None"
| "chain_tree (Op v quantity # items) =
     Some (Instruction v quantity (chain_tree items) None)"
| "chain_tree (Loop body # items) =
     Some (Instruction CATTLE_INSTRUCTION_LOOP_BEGIN 1 (chain_tree items) (chain_tree body))"

text \<open>The program that holds a single node doing nothing, and no input.\<close>

definition cattle_program_new :: cattle_program where
  "cattle_program_new =
     \<lparr>cattle_program_get_instructions = cattle_instruction_new,
      cattle_program_get_input = None\<rparr>"

text \<open>
  The error, if any, and what the program holds afterwards, whatever it held before.
\<close>

definition cattle_program_load ::
    "cattle_program \<Rightarrow> utf8 option \<Rightarrow> cattle_program_error option \<times> cattle_program" where
  "cattle_program_load old text =
     (case text of
        None \<Rightarrow> (Some CATTLE_PROGRAM_ERROR_BAD_UTF8, cattle_program_new)
      | Some cs \<Rightarrow>
          (case scan cs None [] [] of
             Inl e \<Rightarrow> (Some e, cattle_program_new)
           | Inr (items, literal) \<Rightarrow>
               (None,
                \<lparr>cattle_program_get_instructions =
                   (case chain_tree items of
                      None \<Rightarrow> cattle_instruction_new
                    | Some instruction \<Rightarrow> instruction),
                 cattle_program_get_input = literal\<rparr>)))"

subsection \<open>Tapes in use\<close>

text \<open>
  What holds of the tape of a running interpreter: the nodes of the chunk list have
  addresses of their own, none \<^verbatim>\<open>NULL\<close>, the current chunk is one of them, and the
  offset is inside a chunk.
\<close>

definition tape_ok :: "cattle_tape \<Rightarrow> bool" where
  "tape_ok t \<longleftrightarrow>
     distinct (map fst (head t)) \<and> NULL \<notin> set (map fst (head t))
     \<and> current t \<in> set (map fst (head t)) \<and> offset t < CHUNK_SIZE
     \<and> list_all (\<lambda>n. length (snd n) = CHUNK_SIZE) (head t)"

text \<open>The cursor is in the first, or the last, chunk of the chunk list.\<close>

definition in_first_chunk :: "cattle_tape \<Rightarrow> bool" where
  "in_first_chunk t \<longleftrightarrow> current t = fst (hd (head t))"

definition in_last_chunk :: "cattle_tape \<Rightarrow> bool" where
  "in_last_chunk t \<longleftrightarrow> current t = fst (last (head t))"

text \<open>A sequence of single-step moves, applied first to last.\<close>

datatype direction = Left | Right

fun moves :: "direction list \<Rightarrow> cattle_tape \<Rightarrow> cattle_tape" where
  "moves [] t = t"
| "moves (Left # ds) t = moves ds (cattle_tape_move_left t)"
| "moves (Right # ds) t = moves ds (cattle_tape_move_right t)"

text \<open>
  The place of a node in the chunk list, and the position of the cursor counted in
  cells from the cell a fresh tape starts on, which is in the chunk of the first node
  ever made. The positions a sequence of moves visits: the one before each move and
  the one after the last.
\<close>

fun place :: "glist \<Rightarrow> nat \<Rightarrow> nat" where
  "place [] p = 0"
| "place (n # ns) p = (if fst n = p then 0 else Suc (place ns p))"

definition position :: "cattle_tape \<Rightarrow> int" where
  "position t =
     int CHUNK_SIZE * (int (place (head t) (current t)) - int (place (head t) (new_node [])))
     + int (offset t)"

fun visited :: "direction list \<Rightarrow> cattle_tape \<Rightarrow> int list" where
  "visited [] t = [position t]"
| "visited (Left # ds) t = position t # visited ds (cattle_tape_move_left t)"
| "visited (Right # ds) t = position t # visited ds (cattle_tape_move_right t)"

text \<open>
  A tape in use on which the chunk of the first node is still there and the limits are
  offsets the cursor does not lie beyond; the positions the limits stand for.
\<close>

definition tape_bounded :: "cattle_tape \<Rightarrow> bool" where
  "tape_bounded t \<longleftrightarrow>
     tape_ok t \<and> new_node [] \<in> set (map fst (head t))
     \<and> lower_limit t < CHUNK_SIZE \<and> upper_limit t < CHUNK_SIZE
     \<and> (in_first_chunk t \<longrightarrow> lower_limit t \<le> offset t)
     \<and> (in_last_chunk t \<longrightarrow> offset t \<le> upper_limit t)"

definition leftmost :: "cattle_tape \<Rightarrow> int" where
  "leftmost t = int (lower_limit t) - int CHUNK_SIZE * int (place (head t) (new_node []))"

definition rightmost :: "cattle_tape \<Rightarrow> int" where
  "rightmost t =
     int CHUNK_SIZE * (int (length (head t)) - 1 - int (place (head t) (new_node [])))
     + int (upper_limit t)"

subsection \<open>The parts of \<open>run_real\<close>\<close>

text \<open>
  The cases of the \<^verbatim>\<open>switch\<close> that call no \<^verbatim>\<open>run_real\<close>, as \<open>run_real_from\<close> has them,
  and the end of the \<^verbatim>\<open>do ... while\<close> body with its condition: go to the next
  instruction.
\<close>

definition straight ::
    "'w cattle_interpreter \<Rightarrow> cattle_instruction \<Rightarrow> bool \<Rightarrow> gchar option
      \<Rightarrow> (gchar option \<times> 'w cattle_interpreter) outcome" where
  "straight self instruction success temp =
     (let quantity = cattle_instruction_get_quantity instruction;
          t = tape self
      in case cattle_instruction_get_value instruction of
           CATTLE_INSTRUCTION_MOVE_LEFT \<Rightarrow>
             Returned success
               (temp, self\<lparr>tape := (cattle_tape_move_left ^^ nat quantity) t\<rparr>)
         | CATTLE_INSTRUCTION_MOVE_RIGHT \<Rightarrow>
             Returned success
               (temp, self\<lparr>tape := (cattle_tape_move_right ^^ nat quantity) t\<rparr>)
         | CATTLE_INSTRUCTION_INCREASE \<Rightarrow>
             Returned success
               (temp, self\<lparr>tape := cattle_tape_set_current_value t
                  (cattle_tape_get_current_value t + word_of_int quantity)\<rparr>)
         | CATTLE_INSTRUCTION_DECREASE \<Rightarrow>
             Returned success
               (temp, self\<lparr>tape := cattle_tape_set_current_value t
                  (cattle_tape_get_current_value t - word_of_int quantity)\<rparr>)
         | CATTLE_INSTRUCTION_READ \<Rightarrow>
             (case read_loop (nat quantity) self success temp of
                Some (success', Some temp', self') \<Rightarrow>
                  Returned success' (Some temp', store_input self' temp')
              | _ \<Rightarrow> Fault)
         | CATTLE_INSTRUCTION_PRINT \<Rightarrow>
             (case print_loop (nat quantity) self success of
                (success', self') \<Rightarrow> Returned success' (temp, self'))
         | CATTLE_INSTRUCTION_DUMP_TAPE \<Rightarrow>
             (if cattle_configuration_get_debug_is_enabled (configuration self)
              then (case dump_loop (nat quantity) self success of
                      (success', self') \<Rightarrow> Returned success' (temp, self'))
              else Returned success (temp, self))
         | _ \<Rightarrow> Returned success (temp, self))"

definition then_next ::
    "nat \<Rightarrow> cattle_instruction \<Rightarrow> bool \<Rightarrow> gchar option \<Rightarrow> 'w cattle_interpreter
      \<Rightarrow> 'w cattle_interpreter outcome" where
  "then_next n instruction success temp self =
     (case cattle_instruction_get_next instruction of
        Some next_instruction \<Rightarrow>
          (if success then run_real_from n self next_instruction success temp
           else Returned success self)
      | None \<Rightarrow> Returned success self)"



subsection \<open>Interpreters to run\<close>

text \<open>
  A configuration with a given on-EOF action and debugging off, the fresh tape with a
  value stored in its current cell, and the interpreter of a program whose tape is
  that one and whose handlers replay a script.
\<close>

definition configured :: "cattle_on_eof_action \<Rightarrow> cattle_configuration" where
  "configured action =
     \<lparr>cattle_configuration_get_on_eof_action = action,
      cattle_configuration_get_debug_is_enabled = False\<rparr>"

definition tape_with :: "gchar \<Rightarrow> cattle_tape" where
  "tape_with v = cattle_tape_set_current_value cattle_tape_init v"

definition interpreter_with ::
    "cattle_on_eof_action \<Rightarrow> cattle_program \<Rightarrow> script \<Rightarrow> gchar \<Rightarrow> script cattle_interpreter" where
  "interpreter_with action p w v =
     (cattle_interpreter_new (configured action) p scripted w)\<lparr>tape := tape_with v\<rparr>"


text \<open>
  The nodes of \<^verbatim>\<open>,>+\<close> and of \<^verbatim>\<open>,>+,\<close>, of \<^verbatim>\<open>,,\<close> as one node of quantity 2 and as
  two nodes of quantity 1, and of \<^verbatim>\<open>+[.-]\<close>.
\<close>

definition read_right_up :: cattle_instruction where
  "read_right_up =
     Instruction CATTLE_INSTRUCTION_READ 1
       (Some (Instruction CATTLE_INSTRUCTION_MOVE_RIGHT 1
          (Some (Instruction CATTLE_INSTRUCTION_INCREASE 1 None None)) None)) None"

definition read_right_up_read :: cattle_instruction where
  "read_right_up_read =
     Instruction CATTLE_INSTRUCTION_READ 1
       (Some (Instruction CATTLE_INSTRUCTION_MOVE_RIGHT 1
          (Some (Instruction CATTLE_INSTRUCTION_INCREASE 1
             (Some (Instruction CATTLE_INSTRUCTION_READ 1 None None)) None)) None)) None"

definition read_two :: cattle_instruction where
  "read_two = Instruction CATTLE_INSTRUCTION_READ 2 None None"

definition read_read :: cattle_instruction where
  "read_read =
     Instruction CATTLE_INSTRUCTION_READ 1
       (Some (Instruction CATTLE_INSTRUCTION_READ 1 None None)) None"

definition up_loop_print_down :: cattle_instruction where
  "up_loop_print_down =
     Instruction CATTLE_INSTRUCTION_INCREASE 1
       (Some (Instruction CATTLE_INSTRUCTION_LOOP_BEGIN 1 None
          (Some (Instruction CATTLE_INSTRUCTION_PRINT 1
             (Some (Instruction CATTLE_INSTRUCTION_DECREASE 1
                (Some (Instruction CATTLE_INSTRUCTION_LOOP_END 1 None None)) None)) None))))
       None"

text \<open>A program of these nodes, with a literal input or none.\<close>

definition program_of :: "cattle_instruction \<Rightarrow> utf8 option \<Rightarrow> cattle_program" where
  "program_of instruction literal =
     \<lparr>cattle_program_get_instructions = instruction, cattle_program_get_input = literal\<rparr>"

text \<open>
  Handlers whose output handler always fails, and the nodes of \<^verbatim>\<open>.\<close> as a loop body
  and of \<^verbatim>\<open>+[.]\<close>.
\<close>

definition output_fails :: "unit cattle_handlers" where
  "output_fails =
     \<lparr>input_request = (\<lambda>w line. (True, None, w)),
      output_request = (\<lambda>w c. (False, w)),
      debug_request = (\<lambda>w t. (True, t, w))\<rparr>"

definition print_end :: cattle_instruction where
  "print_end =
     Instruction CATTLE_INSTRUCTION_PRINT 1
       (Some (Instruction CATTLE_INSTRUCTION_LOOP_END 1 None None)) None"

definition up_loop_print :: cattle_instruction where
  "up_loop_print =
     Instruction CATTLE_INSTRUCTION_INCREASE 1
       (Some (Instruction CATTLE_INSTRUCTION_LOOP_BEGIN 1 None (Some print_end))) None"

section \<open>The tape\<close>

subsection \<open>The chunk list\<close>

lemma new_node_gt: "a \<in> set (map fst ns) \<Longrightarrow> a < new_node ns"
  by (induction ns) (auto simp: less_max_iff_disj)

lemma new_node_fresh: "new_node ns \<notin> set (map fst ns)"
  using new_node_gt by blast

lemma new_node_not_NULL: "new_node ns \<noteq> NULL"
  by (induction ns) auto

lemma previous_outside: "p \<notin> set (map fst (tl ns)) \<Longrightarrow> g_list_previous ns p = NULL"
  by (induction ns p rule: g_list_previous.induct) auto

lemma previous_inside:
  "p \<in> set (map fst (tl ns)) \<Longrightarrow> g_list_previous ns p \<in> set (map fst ns)"
  by (induction ns p rule: g_list_previous.induct) auto

lemma next_outside: "p \<notin> set (map fst (butlast ns)) \<Longrightarrow> g_list_next ns p = NULL"
  by (induction ns p rule: g_list_next.induct) auto

lemma next_inside:
  "p \<in> set (map fst (butlast ns)) \<Longrightarrow> g_list_next ns p \<in> set (map fst (tl ns))"
  by (induction ns p rule: g_list_next.induct) auto

lemma previous_NULL_iff:
  assumes "distinct (map fst ns)" "NULL \<notin> set (map fst ns)" "p \<in> set (map fst ns)"
  shows "g_list_previous ns p = NULL \<longleftrightarrow> p = fst (hd ns)"
proof (cases ns)
  case Nil with assms show ?thesis by simp
next
  case (Cons m ms)
  from assms(1) Cons have fresh: "fst m \<notin> set (map fst ms)" by simp
  show ?thesis
  proof (cases "p \<in> set (map fst ms)")
    case True
    then have "g_list_previous ns p \<in> set (map fst ns)"
      using previous_inside [of p ns] Cons by simp
    with assms(2) have "g_list_previous ns p \<noteq> NULL" by metis
    moreover from True fresh have "p \<noteq> fst m" by metis
    ultimately show ?thesis using Cons by simp
  next
    case False
    then have "g_list_previous ns p = NULL"
      using previous_outside [of p ns] Cons by simp
    moreover from False assms(3) Cons have "p = fst m" by simp
    ultimately show ?thesis using Cons by simp
  qed
qed

lemma next_NULL_iff:
  assumes "distinct (map fst ns)" "NULL \<notin> set (map fst ns)" "p \<in> set (map fst ns)"
  shows "g_list_next ns p = NULL \<longleftrightarrow> p = fst (last ns)"
proof (cases ns rule: rev_cases)
  case Nil with assms show ?thesis by simp
next
  case (snoc ms m)
  from assms(1) snoc have fresh: "fst m \<notin> set (map fst ms)" by simp
  show ?thesis
  proof (cases "p \<in> set (map fst ms)")
    case True
    then have "g_list_next ns p \<in> set (map fst (tl ns))"
      using next_inside [of p ns] snoc by simp
    then have "g_list_next ns p \<in> set (map fst ns)"
      by (cases ns) simp_all
    with assms(2) have "g_list_next ns p \<noteq> NULL" by metis
    moreover from True fresh have "p \<noteq> fst m" by metis
    ultimately show ?thesis using snoc by simp
  next
    case False
    then have "g_list_next ns p = NULL"
      using next_outside [of p ns] snoc by simp
    moreover from False assms(3) snoc have "p = fst m" by simp
    ultimately show ?thesis using snoc by simp
  qed
qed

lemma previous_prepend:
  "ns \<noteq> [] \<Longrightarrow> g_list_previous (g_list_prepend ns c) (fst (hd ns)) = new_node ns"
  by (cases ns) (auto simp: g_list_prepend_def)

lemma next_snoc:
  "ns \<noteq> [] \<Longrightarrow> fst (last ns) \<notin> set (map fst (butlast ns))
   \<Longrightarrow> g_list_next (ns @ [n]) (fst (last ns)) = fst n"
proof (induction ns)
  case (Cons m ms)
  then show ?case by (cases ms) auto
qed simp

lemma next_append:
  assumes "ns \<noteq> []" "distinct (map fst ns)"
  shows "g_list_next (g_list_append ns c) (fst (last ns)) = new_node ns"
proof -
  from assms have "distinct (map fst (butlast ns @ [last ns]))" by simp
  then have "fst (last ns) \<notin> set (map fst (butlast ns))" by (simp del: append_butlast_last_id)
  with assms(1) show ?thesis by (simp add: g_list_append_def next_snoc)
qed

lemma previous_in_list:
  "g_list_previous ns p \<noteq> NULL \<Longrightarrow> g_list_previous ns p \<in> set (map fst ns)"
  using previous_inside previous_outside by metis

lemma next_in_list:
  "g_list_next ns p \<noteq> NULL \<Longrightarrow> g_list_next ns p \<in> set (map fst ns)"
proof -
  assume "g_list_next ns p \<noteq> NULL"
  then have "g_list_next ns p \<in> set (map fst (tl ns))"
    using next_inside next_outside by metis
  then show ?thesis by (cases ns) simp_all
qed

lemma tape_ok_head: "tape_ok t \<Longrightarrow> head t \<noteq> []"
  by (auto simp: tape_ok_def)

lemma first_chunk_iff:
  "tape_ok t \<Longrightarrow> g_list_previous (head t) (current t) = NULL \<longleftrightarrow> in_first_chunk t"
  unfolding tape_ok_def in_first_chunk_def by (intro previous_NULL_iff) simp_all

lemma last_chunk_iff:
  "tape_ok t \<Longrightarrow> g_list_next (head t) (current t) = NULL \<longleftrightarrow> in_last_chunk t"
  unfolding tape_ok_def in_last_chunk_def by (intro next_NULL_iff) simp_all

lemma move_left_grow:
  assumes "tape_ok t" "offset t = 0" "g_list_previous (head t) (current t) = NULL"
  shows "cattle_tape_move_left t =
           t\<lparr>head := g_list_prepend (head t) alloc0, lower_limit := CHUNK_SIZE - 1,
             current := new_node (head t), offset := CHUNK_SIZE - 1\<rparr>"
proof -
  from assms have "current t = fst (hd (head t))"
    using first_chunk_iff in_first_chunk_def by blast
  with assms tape_ok_head [OF assms(1)] show ?thesis
    by (simp add: cattle_tape_move_left_def previous_prepend)
qed

lemma move_right_grow:
  assumes "tape_ok t" "offset t = CHUNK_SIZE - 1" "g_list_next (head t) (current t) = NULL"
  shows "cattle_tape_move_right t =
           t\<lparr>head := g_list_append (head t) alloc0, upper_limit := 0,
             current := new_node (head t), offset := 0\<rparr>"
proof -
  from assms have "current t = fst (last (head t))"
    using last_chunk_iff in_last_chunk_def by blast
  moreover from assms(1) have "distinct (map fst (head t))" by (simp add: tape_ok_def)
  ultimately show ?thesis using assms tape_ok_head [OF assms(1)]
    by (simp add: cattle_tape_move_right_def next_append)
qed

lemma tape_ok_move_left: 
  assumes "tape_ok t" shows "tape_ok (cattle_tape_move_left t)"
proof (cases "offset t = 0")
  case True
  show ?thesis
  proof (cases "g_list_previous (head t) (current t) = NULL")
    case prev: True
    show ?thesis
      unfolding move_left_grow [OF assms True prev]
      using assms new_node_fresh [of "head t"] new_node_not_NULL [of "head t"]
      by (simp add: tape_ok_def g_list_prepend_def alloc0_def CHUNK_SIZE_def)
  next
    case False
    with previous_in_list [of "head t" "current t"] assms True show ?thesis
      by (simp add: tape_ok_def cattle_tape_move_left_def CHUNK_SIZE_def)
  qed
next
  case False
  with assms show ?thesis
    by (auto simp: tape_ok_def cattle_tape_move_left_def Let_def)
qed

lemma tape_ok_move_right: 
  assumes "tape_ok t" shows "tape_ok (cattle_tape_move_right t)"
proof (cases "offset t = CHUNK_SIZE - 1")
  case True
  show ?thesis
  proof (cases "g_list_next (head t) (current t) = NULL")
    case nxt: True
    show ?thesis
      unfolding move_right_grow [OF assms True nxt]
      using assms new_node_fresh [of "head t"] new_node_not_NULL [of "head t"]
      by (simp add: tape_ok_def g_list_append_def alloc0_def CHUNK_SIZE_def)
  next
    case False
    with next_in_list [of "head t" "current t"] assms True show ?thesis
      by (simp add: tape_ok_def cattle_tape_move_right_def CHUNK_SIZE_def)
  qed
next
  case False
  with assms show ?thesis
    by (auto simp: tape_ok_def cattle_tape_move_right_def Let_def CHUNK_SIZE_def)
qed

lemma tape_ok_moves: "tape_ok t \<Longrightarrow> tape_ok (moves ds t)"
  by (induction ds t rule: moves.induct) (simp_all add: tape_ok_move_left tape_ok_move_right)

lemma tape_ok_init: "tape_ok cattle_tape_init"
  by (simp add: tape_ok_def cattle_tape_init_def g_list_append_def alloc0_def CHUNK_SIZE_def)

subsection \<open>Moves keep the bookmarks, the chunks and their contents\<close>

lemma bookmarks_move_left: "bookmarks (cattle_tape_move_left t) = bookmarks t"
  by (simp add: cattle_tape_move_left_def Let_def)

lemma bookmarks_move_right: "bookmarks (cattle_tape_move_right t) = bookmarks t"
  by (simp add: cattle_tape_move_right_def Let_def)

lemma bookmarks_moves: "bookmarks (moves ds t) = bookmarks t"
  by (induction ds t rule: moves.induct) (simp_all add: bookmarks_move_left bookmarks_move_right)

lemma node_data_append:
  "p \<in> set (map fst ns) \<Longrightarrow> node_data (ns @ [n]) p = node_data ns p"
  by (induction ns) auto

lemma head_move_left:
  "head (cattle_tape_move_left t) = head t
   \<or> head (cattle_tape_move_left t) = g_list_prepend (head t) alloc0"
  by (simp add: cattle_tape_move_left_def Let_def)

lemma head_move_right:
  "head (cattle_tape_move_right t) = head t
   \<or> head (cattle_tape_move_right t) = g_list_append (head t) alloc0"
  by (simp add: cattle_tape_move_right_def Let_def)

lemma node_data_move_left:
  assumes "p \<in> set (map fst (head t))"
  shows "p \<in> set (map fst (head (cattle_tape_move_left t)))
         \<and> node_data (head (cattle_tape_move_left t)) p = node_data (head t) p"
proof -
  from assms new_node_fresh [of "head t"] have "new_node (head t) \<noteq> p" by metis
  with assms head_move_left [of t] show ?thesis
    by (auto simp: g_list_prepend_def)
qed

lemma node_data_move_right:
  assumes "p \<in> set (map fst (head t))"
  shows "p \<in> set (map fst (head (cattle_tape_move_right t)))
         \<and> node_data (head (cattle_tape_move_right t)) p = node_data (head t) p"
  using assms head_move_right [of t] node_data_append [OF assms]
  by (auto simp: g_list_append_def)

lemma node_data_moves:
  "p \<in> set (map fst (head t)) \<Longrightarrow>
     p \<in> set (map fst (head (moves ds t)))
     \<and> node_data (head (moves ds t)) p = node_data (head t) p"
proof (induction ds t rule: moves.induct)
  case (2 ds t)
  with node_data_move_left [of p t] show ?case by simp
next
  case (3 ds t)
  with node_data_move_right [of p t] show ?case by simp
qed simp




subsection \<open>The beginning and the end of the tape\<close>

text \<open>
  Claim C10. On a freshly created tape, before any move or write,
  \<^verbatim>\<open>cattle_tape_is_at_beginning\<close> and \<^verbatim>\<open>cattle_tape_is_at_end\<close> both return true, and
  \<^verbatim>\<open>cattle_tape_get_current_value\<close> returns 0: the chunk list holds one chunk, which is
  the first and the last one, and the offset of the cursor equals both limits.
\<close>

theorem fresh_tape:
  "cattle_tape_is_at_beginning cattle_tape_init
   \<and> cattle_tape_is_at_end cattle_tape_init
   \<and> cattle_tape_get_current_value cattle_tape_init = 0
   \<and> length (head cattle_tape_init) = 1
   \<and> in_first_chunk cattle_tape_init \<and> in_last_chunk cattle_tape_init
   \<and> offset cattle_tape_init = lower_limit cattle_tape_init
   \<and> offset cattle_tape_init = upper_limit cattle_tape_init"
  by (simp add: cattle_tape_is_at_beginning_def cattle_tape_is_at_end_def
      cattle_tape_get_current_value_def cattle_tape_init_def g_list_append_def
      in_first_chunk_def in_last_chunk_def alloc0_def CHUNK_SIZE_def)




subsection \<open>Bookmarks\<close>

text \<open>
  Claim C6. For every tape state, \<^verbatim>\<open>cattle_tape_push_bookmark\<close>, then any sequence of
  \<^verbatim>\<open>cattle_tape_move_left\<close> and \<^verbatim>\<open>cattle_tape_move_right\<close>, then
  \<^verbatim>\<open>cattle_tape_pop_bookmark\<close> returns true and restores the chunk and the offset of the
  cursor to what they were at the push, and the bookmark stack as well; on a tape in
  use the restored chunk is still in the chunk list and the current cell holds the
  value it held. \<^verbatim>\<open>cattle_tape_pop_bookmark\<close> on an empty bookmark stack returns false
  and leaves the tape unchanged.
\<close>

theorem bookmark_restores_position:
  "(case cattle_tape_pop_bookmark (moves ds (cattle_tape_push_bookmark t)) of
      (check, t') \<Rightarrow>
        check \<and> current t' = current t \<and> offset t' = offset t
        \<and> bookmarks t' = bookmarks t
        \<and> (tape_ok t \<longrightarrow>
             tape_ok t'
             \<and> cattle_tape_get_current_value t' = cattle_tape_get_current_value t))
   \<and> (bookmarks t = [] \<longrightarrow> cattle_tape_pop_bookmark t = (False, t))"
proof -
  let ?m = "moves ds (cattle_tape_push_bookmark t)"
  have b: "bookmarks ?m = (current t, offset t) # bookmarks t"
    by (simp add: bookmarks_moves cattle_tape_push_bookmark_def)
  have pop: "cattle_tape_pop_bookmark ?m =
      (True, ?m\<lparr>bookmarks := bookmarks t, current := current t, offset := offset t\<rparr>)"
    by (simp add: cattle_tape_pop_bookmark_def b)
  have ok: "tape_ok (?m\<lparr>bookmarks := bookmarks t, current := current t, offset := offset t\<rparr>)
      \<and> node_data (head ?m) (current t) = node_data (head t) (current t)" if "tape_ok t"
  proof -
    from that have "tape_ok (cattle_tape_push_bookmark t)"
      by (simp add: tape_ok_def cattle_tape_push_bookmark_def)
    then have m: "tape_ok ?m" by (rule tape_ok_moves)
    from that have "current t \<in> set (map fst (head (cattle_tape_push_bookmark t)))"
      by (simp add: tape_ok_def cattle_tape_push_bookmark_def)
    from node_data_moves [OF this, where ds = ds] m that show ?thesis
      by (simp add: tape_ok_def cattle_tape_push_bookmark_def)
  qed
  have empty: "bookmarks t = [] \<longrightarrow> cattle_tape_pop_bookmark t = (False, t)"
    by (simp add: cattle_tape_pop_bookmark_def)
  from ok empty show ?thesis
    unfolding pop by (auto simp: cattle_tape_get_current_value_def)
qed

theorem bookmark_restores_position_witness:
  "tape_ok cattle_tape_init \<and> bookmarks cattle_tape_init = []
   \<and> cattle_tape_pop_bookmark cattle_tape_init = (False, cattle_tape_init)
   \<and> fst (cattle_tape_pop_bookmark
        (moves [Left, Left, Right] (cattle_tape_push_bookmark cattle_tape_init)))
   \<and> current (snd (cattle_tape_pop_bookmark
        (moves [Left, Left, Right] (cattle_tape_push_bookmark cattle_tape_init)))) = 1
   \<and> offset (snd (cattle_tape_pop_bookmark
        (moves [Left, Left, Right] (cattle_tape_push_bookmark cattle_tape_init)))) = 0
   \<and> current (moves [Left, Left, Right] (cattle_tape_push_bookmark cattle_tape_init)) = 2
   \<and> offset (moves [Left, Left, Right] (cattle_tape_push_bookmark cattle_tape_init)) = 127
   \<and> cattle_tape_get_current_value (snd (cattle_tape_pop_bookmark
        (moves [Left, Left, Right] (cattle_tape_push_bookmark cattle_tape_init)))) = 0"
proof -
  have i: "bookmarks cattle_tape_init = [] \<and> current cattle_tape_init = 1
      \<and> offset cattle_tape_init = 0 \<and> cattle_tape_get_current_value cattle_tape_init = 0"
    by (simp add: cattle_tape_init_def cattle_tape_get_current_value_def g_list_append_def
        alloc0_def CHUNK_SIZE_def)
  have m: "current (moves [Left, Left, Right] (cattle_tape_push_bookmark cattle_tape_init)) = 2
     \<and> offset (moves [Left, Left, Right] (cattle_tape_push_bookmark cattle_tape_init)) = 127"
    by (simp add: cattle_tape_init_def cattle_tape_push_bookmark_def cattle_tape_move_left_def
        cattle_tape_move_right_def g_list_append_def g_list_prepend_def CHUNK_SIZE_def Let_def)
  show ?thesis
    using bookmark_restores_position [where ds = "[Left, Left, Right]" and t = cattle_tape_init] i m tape_ok_init
    by (simp split: prod.splits)
qed

subsection \<open>Positions\<close>

lemma place_less: "p \<in> set (map fst ns) \<Longrightarrow> place ns p < length ns"
  by (induction ns) auto

lemma place_zero_iff:
  "p \<in> set (map fst ns) \<Longrightarrow> place ns p = 0 \<longleftrightarrow> p = fst (hd ns)"
  by (cases ns) auto

lemma place_last_iff:
  "distinct (map fst ns) \<Longrightarrow> p \<in> set (map fst ns)
   \<Longrightarrow> Suc (place ns p) = length ns \<longleftrightarrow> p = fst (last ns)"
proof (induction ns)
  case Nil
  then show ?case by simp
next
  case (Cons n ns)
  show ?case
  proof (cases "ns = []")
    case True
    with Cons.prems show ?thesis by simp
  next
    case False
    show ?thesis
    proof (cases "fst n = p")
      case True
      with Cons.prems False have "p \<noteq> fst (last ns)"
        using last_in_set [OF False] by force
      with True False show ?thesis by simp
    next
      case neq: False
      with Cons.prems have "p \<in> set (map fst ns)" by auto
      with Cons.IH Cons.prems neq False show ?thesis by simp
    qed
  qed
qed

lemma place_append: "p \<in> set (map fst ns) \<Longrightarrow> place (ns @ ms) p = place ns p"
  by (induction ns) auto

lemma place_previous:
  "distinct (map fst ns) \<Longrightarrow> p \<in> set (map fst (tl ns))
   \<Longrightarrow> Suc (place ns (g_list_previous ns p)) = place ns p"
proof (induction ns p rule: g_list_previous.induct)
  case (1 m n ns p)
  show ?case
  proof (cases "fst n = p")
    case True
    with "1.prems" show ?thesis by auto
  next
    case False
    with "1.prems" have in_tl: "p \<in> set (map fst ns)" by auto
    then have "p \<in> set (map fst (tl (n # ns)))" by simp
    with "1.IH" [OF False] "1.prems" have IH: "Suc (place (n # ns) (g_list_previous (n # ns) p)) = place (n # ns) p"
      by simp
    from "1.prems"(1) have fm: "fst m \<notin> set (map fst (n # ns))" by simp
    from in_tl previous_inside [of p "n # ns"] have "g_list_previous (n # ns) p \<in> set (map fst (n # ns))"
      by simp
    with fm have "g_list_previous (n # ns) p \<noteq> fst m" by metis
    moreover from in_tl fm have "p \<noteq> fst m" by (metis list.set_intros(2) list.simps(9))
    ultimately show ?thesis using False IH by simp
  qed
qed auto

lemma place_next:
  "distinct (map fst ns) \<Longrightarrow> p \<in> set (map fst (butlast ns))
   \<Longrightarrow> place ns (g_list_next ns p) = Suc (place ns p)"
proof (induction ns p rule: g_list_next.induct)
  case (1 m n ns p)
  show ?case
  proof (cases "fst m = p")
    case True
    with "1.prems" show ?thesis by auto
  next
    case False
    with "1.prems" have in_bl: "p \<in> set (map fst (butlast (n # ns)))" by auto
    with "1.IH" [OF False] "1.prems" have IH: "place (n # ns) (g_list_next (n # ns) p) = Suc (place (n # ns) p)"
      by simp
    from "1.prems"(1) have fm: "fst m \<notin> set (map fst (n # ns))" by simp
    from in_bl next_inside [of p "n # ns"] have "g_list_next (n # ns) p \<in> set (map fst ns)"
      by simp
    then have "g_list_next (n # ns) p \<in> set (map fst (n # ns))" by simp
    with fm have "g_list_next (n # ns) p \<noteq> fst m" by metis
    with False IH show ?thesis by simp
  qed
qed auto

lemma first_chunk_place:
  "tape_ok t \<Longrightarrow> in_first_chunk t \<longleftrightarrow> place (head t) (current t) = 0"
  by (simp add: tape_ok_def in_first_chunk_def place_zero_iff)

lemma last_chunk_place:
  "tape_ok t \<Longrightarrow> in_last_chunk t \<longleftrightarrow> Suc (place (head t) (current t)) = length (head t)"
  by (simp add: tape_ok_def in_last_chunk_def place_last_iff)

lemma place_current_less: "tape_ok t \<Longrightarrow> place (head t) (current t) < length (head t)"
  by (simp add: tape_ok_def place_less)

lemma bounded_between:
  assumes "tape_bounded t"
  shows "leftmost t \<le> position t" and "position t \<le> rightmost t"
    and "cattle_tape_is_at_beginning t \<longleftrightarrow> position t = leftmost t"
    and "cattle_tape_is_at_end t \<longleftrightarrow> position t = rightmost t"
proof -
  from assms have ok: "tape_ok t" by (simp add: tape_bounded_def)
  note f = first_chunk_place [OF ok] and l = last_chunk_place [OF ok]
    and p = place_current_less [OF ok]
  from assms have lim: "lower_limit t < 128" "upper_limit t < 128" "offset t < 128"
    "place (head t) (current t) = 0 \<longrightarrow> lower_limit t \<le> offset t"
    "Suc (place (head t) (current t)) = length (head t) \<longrightarrow> offset t \<le> upper_limit t"
    by (simp_all add: tape_bounded_def tape_ok_def CHUNK_SIZE_def f l)
  show "leftmost t \<le> position t"
    using lim by (cases "place (head t) (current t)") (simp_all add: leftmost_def position_def CHUNK_SIZE_def)
  show "position t \<le> rightmost t"
    using lim p by (cases "Suc (place (head t) (current t)) = length (head t)")
      (auto simp: rightmost_def position_def CHUNK_SIZE_def)
  show "cattle_tape_is_at_beginning t \<longleftrightarrow> position t = leftmost t"
    using lim by (cases "place (head t) (current t)")
      (auto simp: cattle_tape_is_at_beginning_def first_chunk_iff [OF ok] f leftmost_def position_def
        CHUNK_SIZE_def)
  show "cattle_tape_is_at_end t \<longleftrightarrow> position t = rightmost t"
    using lim p by (cases "Suc (place (head t) (current t)) = length (head t)")
      (auto simp: cattle_tape_is_at_end_def last_chunk_iff [OF ok] l rightmost_def position_def
        CHUNK_SIZE_def)
qed

lemma bounded_move_left:
  assumes "tape_bounded t"
  shows "tape_bounded (cattle_tape_move_left t)
       \<and> position (cattle_tape_move_left t) = position t - 1
       \<and> leftmost (cattle_tape_move_left t) = min (leftmost t) (position (cattle_tape_move_left t))
       \<and> rightmost (cattle_tape_move_left t) = rightmost t"
proof -
  let ?o = "new_node []"
  from assms have ok: "tape_ok t" by (simp add: tape_bounded_def)
  note f = first_chunk_place [OF ok] and l = last_chunk_place [OF ok]
    and p = place_current_less [OF ok]
  from ok have d: "distinct (map fst (head t))" and c: "current t \<in> set (map fst (head t))"
    by (simp_all add: tape_ok_def)
  from assms have o: "?o \<in> set (map fst (head t))" by (simp add: tape_bounded_def)
  from assms have lim: "lower_limit t < 128" "upper_limit t < 128" "offset t < 128"
    "place (head t) (current t) = 0 \<longrightarrow> lower_limit t \<le> offset t"
    "Suc (place (head t) (current t)) = length (head t) \<longrightarrow> offset t \<le> upper_limit t"
    by (simp_all add: tape_bounded_def tape_ok_def CHUNK_SIZE_def f l)
  have ok': "tape_ok (cattle_tape_move_left t)" by (rule tape_ok_move_left [OF ok])
  note f' = first_chunk_place [OF ok'] and l' = last_chunk_place [OF ok']
  show ?thesis
  proof (cases "offset t = 0")
    case zero: True
    show ?thesis
    proof (cases "g_list_previous (head t) (current t) = NULL")
      case True
      note g = move_left_grow [OF ok zero True]
      from True ok have P: "place (head t) (current t) = 0"
        using first_chunk_iff f by blast
      from o new_node_fresh [of "head t"] have "new_node (head t) \<noteq> ?o" by metis
      then have O: "place (g_list_prepend (head t) alloc0) ?o = Suc (place (head t) ?o)"
        by (simp add: g_list_prepend_def)
      note O = O [simplified]
      have C: "place (g_list_prepend (head t) alloc0) (new_node (head t)) = 0"
        by (simp add: g_list_prepend_def)
      have len: "length (g_list_prepend (head t) alloc0) = Suc (length (head t))"
        by (simp add: g_list_prepend_def)
      from tape_ok_head [OF ok] have ne: "length (head t) \<noteq> 0" by simp
      from o have o': "?o \<in> set (map fst (g_list_prepend (head t) alloc0))"
        by (simp add: g_list_prepend_def)
      have "tape_bounded (cattle_tape_move_left t)"
        unfolding tape_bounded_def f' l' using ok' o' lim ne
        by (simp add: g C len CHUNK_SIZE_def)
      moreover have "position (cattle_tape_move_left t) = position t - 1"
        using zero P by (simp add: g position_def O C CHUNK_SIZE_def)
      moreover have "leftmost (cattle_tape_move_left t)
          = min (leftmost t) (position (cattle_tape_move_left t))"
        using zero P lim by (simp add: g position_def leftmost_def O C CHUNK_SIZE_def)
      moreover have "rightmost (cattle_tape_move_left t) = rightmost t"
        by (simp add: g rightmost_def O len)
      ultimately show ?thesis by blast
    next
      case False
      then have tl: "current t \<in> set (map fst (tl (head t)))"
        using previous_outside [of "current t" "head t"] by metis
      from place_previous [OF d tl]
      have P: "Suc (place (head t) (g_list_previous (head t) (current t))) = place (head t) (current t)" .
      from zero False have m: "cattle_tape_move_left t =
          t\<lparr>current := g_list_previous (head t) (current t), offset := CHUNK_SIZE - 1\<rparr>"
        by (simp add: cattle_tape_move_left_def)
      have "tape_bounded (cattle_tape_move_left t)"
        unfolding tape_bounded_def f' l' using ok' o lim P p assms
        by (auto simp: m CHUNK_SIZE_def tape_bounded_def)
      moreover have "position (cattle_tape_move_left t) = position t - 1"
        using zero P by (simp add: m position_def CHUNK_SIZE_def)
      moreover have "leftmost (cattle_tape_move_left t)
          = min (leftmost t) (position (cattle_tape_move_left t))"
        using zero P lim by (simp add: m position_def leftmost_def CHUNK_SIZE_def; linarith)
      moreover have "rightmost (cattle_tape_move_left t) = rightmost t"
        by (simp add: m rightmost_def)
      ultimately show ?thesis by blast
    qed
  next
    case False
    show ?thesis
    proof (cases "g_list_previous (head t) (current t) = NULL \<and> offset t - 1 < lower_limit t")
      case True
      with ok have P: "place (head t) (current t) = 0"
        using first_chunk_iff f by blast
      from False True have m: "cattle_tape_move_left t =
          t\<lparr>offset := offset t - 1, lower_limit := offset t - 1\<rparr>"
        by (simp add: cattle_tape_move_left_def Let_def)
      have "tape_bounded (cattle_tape_move_left t)"
        unfolding tape_bounded_def f' l' using ok' o lim False
        by (auto simp: m CHUNK_SIZE_def)
      moreover have "position (cattle_tape_move_left t) = position t - 1"
        using False by (simp add: m position_def)
      moreover have "leftmost (cattle_tape_move_left t)
          = min (leftmost t) (position (cattle_tape_move_left t))"
        using False True P by (simp add: m position_def leftmost_def; linarith)
      moreover have "rightmost (cattle_tape_move_left t) = rightmost t"
        by (simp add: m rightmost_def)
      ultimately show ?thesis by blast
    next
      case no: False
      with False have m: "cattle_tape_move_left t = t\<lparr>offset := offset t - 1\<rparr>"
        by (auto simp: cattle_tape_move_left_def Let_def)
      from no ok have nf: "place (head t) (current t) = 0 \<longrightarrow> lower_limit t \<le> offset t - 1"
        using first_chunk_iff f by auto
      have "tape_bounded (cattle_tape_move_left t)"
        unfolding tape_bounded_def f' l' using ok' o lim False nf
        by (auto simp: m CHUNK_SIZE_def)
      moreover have "position (cattle_tape_move_left t) = position t - 1"
        using False by (simp add: m position_def)
      moreover have "leftmost (cattle_tape_move_left t)
          = min (leftmost t) (position (cattle_tape_move_left t))"
        using False nf lim
        by (cases "place (head t) (current t)")
          (auto simp: m position_def leftmost_def CHUNK_SIZE_def min_def)
      moreover have "rightmost (cattle_tape_move_left t) = rightmost t"
        by (simp add: m rightmost_def)
      ultimately show ?thesis by blast
    qed
  qed
qed

lemma place_fresh_append:
  "p \<notin> set (map fst ns) \<Longrightarrow> place (ns @ [(p, c)]) p = length ns"
  by (induction ns) auto

lemma bounded_move_right:
  assumes "tape_bounded t"
  shows "tape_bounded (cattle_tape_move_right t)
       \<and> position (cattle_tape_move_right t) = position t + 1
       \<and> rightmost (cattle_tape_move_right t) = max (rightmost t) (position (cattle_tape_move_right t))
       \<and> leftmost (cattle_tape_move_right t) = leftmost t"
proof -
  let ?o = "new_node []"
  from assms have ok: "tape_ok t" by (simp add: tape_bounded_def)
  note f = first_chunk_place [OF ok] and l = last_chunk_place [OF ok]
    and p = place_current_less [OF ok]
  from ok have d: "distinct (map fst (head t))" and c: "current t \<in> set (map fst (head t))"
    by (simp_all add: tape_ok_def)
  from assms have o: "?o \<in> set (map fst (head t))" by (simp add: tape_bounded_def)
  from assms have lim: "lower_limit t < 128" "upper_limit t < 128" "offset t < 128"
    "place (head t) (current t) = 0 \<longrightarrow> lower_limit t \<le> offset t"
    "Suc (place (head t) (current t)) = length (head t) \<longrightarrow> offset t \<le> upper_limit t"
    by (simp_all add: tape_bounded_def tape_ok_def CHUNK_SIZE_def f l)
  have ok': "tape_ok (cattle_tape_move_right t)" by (rule tape_ok_move_right [OF ok])
  note f' = first_chunk_place [OF ok'] and l' = last_chunk_place [OF ok']
  show ?thesis
  proof (cases "offset t = CHUNK_SIZE - 1")
    case full: True
    then have off: "offset t = 127" by (simp add: CHUNK_SIZE_def)
    show ?thesis
    proof (cases "g_list_next (head t) (current t) = NULL")
      case True
      note g = move_right_grow [OF ok full True]
      from True ok have P: "Suc (place (head t) (current t)) = length (head t)"
        using last_chunk_iff l by blast
      from o have O: "place (g_list_append (head t) alloc0) ?o = place (head t) ?o"
        by (simp add: g_list_append_def place_append del: new_node.simps)
      note O = O [simplified]
      have C: "place (g_list_append (head t) alloc0) (new_node (head t)) = length (head t)"
        using new_node_fresh [of "head t"] by (simp add: g_list_append_def place_fresh_append)
      have len: "length (g_list_append (head t) alloc0) = Suc (length (head t))"
        by (simp add: g_list_append_def)
      from tape_ok_head [OF ok] have ne: "length (head t) \<noteq> 0" by simp
      from o have o': "?o \<in> set (map fst (g_list_append (head t) alloc0))"
        by (simp add: g_list_append_def)
      have "tape_bounded (cattle_tape_move_right t)"
        unfolding tape_bounded_def f' l' using ok' o' lim ne
        by (simp add: g C len CHUNK_SIZE_def)
      moreover have "position (cattle_tape_move_right t) = position t + 1"
        using off P by (simp add: g position_def O C CHUNK_SIZE_def; linarith)
      moreover have "rightmost (cattle_tape_move_right t)
          = max (rightmost t) (position (cattle_tape_move_right t))"
        using off P lim by (simp add: g position_def rightmost_def O C len CHUNK_SIZE_def; linarith)
      moreover have "leftmost (cattle_tape_move_right t) = leftmost t"
        by (simp add: g leftmost_def O)
      ultimately show ?thesis by blast
    next
      case False
      then have bl: "current t \<in> set (map fst (butlast (head t)))"
        using next_outside [of "current t" "head t"] by metis
      from place_next [OF d bl]
      have P: "place (head t) (g_list_next (head t) (current t)) = Suc (place (head t) (current t))" .
      from next_in_list [OF False] have "place (head t) (g_list_next (head t) (current t)) < length (head t)"
        by (rule place_less)
      with P have P2: "Suc (place (head t) (current t)) < length (head t)" by simp
      from full False have m: "cattle_tape_move_right t =
          t\<lparr>current := g_list_next (head t) (current t), offset := 0\<rparr>"
        by (simp add: cattle_tape_move_right_def)
      have "tape_bounded (cattle_tape_move_right t)"
        unfolding tape_bounded_def f' l' using ok' o lim P
        by (auto simp: m CHUNK_SIZE_def)
      moreover have "position (cattle_tape_move_right t) = position t + 1"
        using off P by (simp add: m position_def CHUNK_SIZE_def; linarith)
      moreover have "rightmost (cattle_tape_move_right t)
          = max (rightmost t) (position (cattle_tape_move_right t))"
        using off P P2 lim by (simp add: m position_def rightmost_def CHUNK_SIZE_def; linarith)
      moreover have "leftmost (cattle_tape_move_right t) = leftmost t"
        by (simp add: m leftmost_def)
      ultimately show ?thesis by blast
    qed
  next
    case False
    with lim have off: "offset t < 127" by (simp add: CHUNK_SIZE_def)
    show ?thesis
    proof (cases "g_list_next (head t) (current t) = NULL \<and> offset t + 1 > upper_limit t")
      case True
      with ok have P: "Suc (place (head t) (current t)) = length (head t)"
        using last_chunk_iff l by blast
      from False True have m: "cattle_tape_move_right t =
          t\<lparr>offset := offset t + 1, upper_limit := offset t + 1\<rparr>"
        by (simp add: cattle_tape_move_right_def Let_def)
      have "tape_bounded (cattle_tape_move_right t)"
        unfolding tape_bounded_def f' l' using ok' o lim off
        by (auto simp: m CHUNK_SIZE_def)
      moreover have "position (cattle_tape_move_right t) = position t + 1"
        by (simp add: m position_def)
      moreover have "rightmost (cattle_tape_move_right t)
          = max (rightmost t) (position (cattle_tape_move_right t))"
        using True by (simp add: m position_def rightmost_def P [symmetric]; linarith)
      moreover have "leftmost (cattle_tape_move_right t) = leftmost t"
        by (simp add: m leftmost_def)
      ultimately show ?thesis by blast
    next
      case no: False
      with False have m: "cattle_tape_move_right t = t\<lparr>offset := offset t + 1\<rparr>"
        by (auto simp: cattle_tape_move_right_def Let_def)
      from no ok have nl: "Suc (place (head t) (current t)) = length (head t)
          \<longrightarrow> offset t + 1 \<le> upper_limit t"
        using last_chunk_iff l by auto
      have "tape_bounded (cattle_tape_move_right t)"
        unfolding tape_bounded_def f' l' using ok' o lim off nl
        by (auto simp: m CHUNK_SIZE_def)
      moreover have "position (cattle_tape_move_right t) = position t + 1"
        by (simp add: m position_def)
      moreover have "rightmost (cattle_tape_move_right t)
          = max (rightmost t) (position (cattle_tape_move_right t))"
        using nl lim p off
        by (cases "Suc (place (head t) (current t)) = length (head t)")
          (auto simp: m position_def rightmost_def CHUNK_SIZE_def max_def)
      moreover have "leftmost (cattle_tape_move_right t) = leftmost t"
        by (simp add: m leftmost_def)
      ultimately show ?thesis by blast
    qed
  qed
qed

lemma visited_first: "position t \<in> set (visited ds t)"
  by (induction ds t rule: visited.induct) simp_all

lemma moves_append: "moves (ds @ es) t = moves es (moves ds t)"
  by (induction ds t rule: moves.induct) simp_all

lemma bounded_moves:
  "tape_bounded t \<Longrightarrow>
     tape_bounded (moves ds t)
     \<and> leftmost (moves ds t) = min (leftmost t) (Min (set (visited ds t)))
     \<and> rightmost (moves ds t) = max (rightmost t) (Max (set (visited ds t)))"
proof (induction ds t rule: moves.induct)
  case (1 t)
  with bounded_between(1,2) [OF "1.prems"] show ?case by simp
next
  case (2 ds t)
  let ?t = "cattle_tape_move_left t"
  note s = bounded_move_left [OF "2.prems"] and b = bounded_between(1,2) [OF "2.prems"]
  from s have bt: "tape_bounded ?t" by blast
  note IH = "2.IH" [OF bt]
  have fin: "finite (set (visited ds ?t))" "set (visited ds ?t) \<noteq> {}"
    using visited_first [of ?t ds] by auto
  have lo: "Min (set (visited ds ?t)) \<le> position ?t"
    using visited_first [of ?t ds] by simp
  have hi: "position ?t \<le> Max (set (visited ds ?t))"
    using visited_first [of ?t ds] by simp
  have v: "Min (set (visited (Left # ds) t)) = min (position t) (Min (set (visited ds ?t)))"
    "Max (set (visited (Left # ds) t)) = max (position t) (Max (set (visited ds ?t)))"
    using fin by simp_all
  from IH have "tape_bounded (moves (Left # ds) t)" by simp
  moreover from IH s b lo hi
  have "leftmost (moves (Left # ds) t) = min (leftmost t) (Min (set (visited (Left # ds) t)))"
    unfolding v by (simp; linarith)
  moreover from IH s b lo hi
  have "rightmost (moves (Left # ds) t) = max (rightmost t) (Max (set (visited (Left # ds) t)))"
    unfolding v by (simp; linarith)
  ultimately show ?case by blast
next
  case (3 ds t)
  let ?t = "cattle_tape_move_right t"
  note s = bounded_move_right [OF "3.prems"] and b = bounded_between(1,2) [OF "3.prems"]
  from s have bt: "tape_bounded ?t" by blast
  note IH = "3.IH" [OF bt]
  have fin: "finite (set (visited ds ?t))" "set (visited ds ?t) \<noteq> {}"
    using visited_first [of ?t ds] by auto
  have lo: "Min (set (visited ds ?t)) \<le> position ?t"
    using visited_first [of ?t ds] by simp
  have hi: "position ?t \<le> Max (set (visited ds ?t))"
    using visited_first [of ?t ds] by simp
  have v: "Min (set (visited (Right # ds) t)) = min (position t) (Min (set (visited ds ?t)))"
    "Max (set (visited (Right # ds) t)) = max (position t) (Max (set (visited ds ?t)))"
    using fin by simp_all
  from IH have "tape_bounded (moves (Right # ds) t)" by simp
  moreover from IH s b lo hi
  have "leftmost (moves (Right # ds) t) = min (leftmost t) (Min (set (visited (Right # ds) t)))"
    unfolding v by (simp; linarith)
  moreover from IH s b lo hi
  have "rightmost (moves (Right # ds) t) = max (rightmost t) (Max (set (visited (Right # ds) t)))"
    unfolding v by (simp; linarith)
  ultimately show ?case by blast
qed

lemma bounded_init:
  "tape_bounded cattle_tape_init" "leftmost cattle_tape_init = 0" "rightmost cattle_tape_init = 0"
  "position cattle_tape_init = 0"
  using tape_ok_init
  by (simp_all add: tape_bounded_def leftmost_def rightmost_def position_def cattle_tape_init_def
      g_list_append_def CHUNK_SIZE_def)


text \<open>
  On a tape that started fresh, every move shifts the position of the cursor by one
  cell, and the limits kept by the moves are the ends of what was visited:
  \<^verbatim>\<open>cattle_tape_is_at_beginning\<close> is true exactly on the leftmost cell the cursor has
  been on so far, and \<^verbatim>\<open>cattle_tape_is_at_end\<close> exactly on the rightmost.
\<close>

theorem limits_are_extremes:
  "(cattle_tape_is_at_beginning (moves ds cattle_tape_init) \<longleftrightarrow>
      position (moves ds cattle_tape_init) = Min (set (visited ds cattle_tape_init)))
   \<and> (cattle_tape_is_at_end (moves ds cattle_tape_init) \<longleftrightarrow>
      position (moves ds cattle_tape_init) = Max (set (visited ds cattle_tape_init)))
   \<and> position (moves (ds @ [Left]) cattle_tape_init) = position (moves ds cattle_tape_init) - 1
   \<and> position (moves (ds @ [Right]) cattle_tape_init) = position (moves ds cattle_tape_init) + 1"
proof -
  let ?t = "moves ds cattle_tape_init"
  note m = bounded_moves [OF bounded_init(1), of ds]
  from m have b: "tape_bounded ?t" by blast
  have lo: "Min (set (visited ds cattle_tape_init)) \<le> 0" "0 \<le> Max (set (visited ds cattle_tape_init))"
    using visited_first [of cattle_tape_init ds] by (simp_all add: bounded_init(4))
  from m lo have "leftmost ?t = Min (set (visited ds cattle_tape_init))"
    "rightmost ?t = Max (set (visited ds cattle_tape_init))"
    by (simp_all add: bounded_init)
  with bounded_between(3,4) [OF b] bounded_move_left [OF b] bounded_move_right [OF b]
  show ?thesis by (simp add: moves_append)
qed

section \<open>The interpreter\<close>

subsection \<open>Unfolding \<open>run_real\<close>, and more fuel\<close>

lemma run_real_from_Suc:
  "run_real_from (Suc n) self i s t =
     (if cattle_instruction_get_value i = CATTLE_INSTRUCTION_LOOP_END then Returned s self
      else if cattle_instruction_get_value i = CATTLE_INSTRUCTION_LOOP_BEGIN then
        (case cattle_instruction_get_loop i of
           Some body \<Rightarrow>
             (case run_real_loop n self body s of
                Returned s' self' \<Rightarrow> then_next n i s' t self'
              | OutOfFuel \<Rightarrow> OutOfFuel
              | Fault \<Rightarrow> Fault)
         | None \<Rightarrow> then_next n i s t self)
      else
        (case straight self i s t of
           Returned s' (t', self') \<Rightarrow> then_next n i s' t' self'
         | OutOfFuel \<Rightarrow> OutOfFuel
         | Fault \<Rightarrow> Fault))"
  by (simp add: straight_def then_next_def Let_def
      split: cattle_instruction_value.splits option.splits outcome.splits prod.splits)

declare run_real_from.simps(2) [simp del]





subsection \<open>Calls that return\<close>











subsection \<open>The example interpreters\<close>

lemma get_tape_with: "cattle_tape_get_current_value (tape_with v) = v"
  by (simp add: tape_with_def cattle_tape_get_current_value_def cattle_tape_set_current_value_def
      cattle_tape_init_def g_list_append_def alloc0_def CHUNK_SIZE_def)

lemma set_tape_with: "cattle_tape_set_current_value (tape_with v) u = tape_with u"
  by (simp add: tape_with_def cattle_tape_set_current_value_def
      cattle_tape_init_def g_list_append_def)

lemma tape_interpreter_with: "tape (interpreter_with a p w v) = tape_with v"
  by (simp add: interpreter_with_def)

lemma interpreter_with_tape:
  "(interpreter_with a p w v)\<lparr>tape := tape_with u\<rparr> = interpreter_with a p w u"
  by (simp add: interpreter_with_def)



subsection \<open>Loops\<close>



subsection \<open>Increase and decrease\<close>

lemma node_data_store:
  "p \<in> set (map fst ns) \<Longrightarrow> node_data (node_store ns p i v) p = (node_data ns p)[i := v]"
  by (induction ns) auto

lemma node_data_length:
  "p \<in> set (map fst ns) \<Longrightarrow> list_all (\<lambda>n. length (snd n) = k) ns
   \<Longrightarrow> length (node_data ns p) = k"
  by (induction ns) auto

lemma get_set_current_value:
  assumes "tape_ok t"
  shows "cattle_tape_get_current_value (cattle_tape_set_current_value t v) = v"
proof -
  from assms have p: "current t \<in> set (map fst (head t))" by (simp add: tape_ok_def)
  from assms have "list_all (\<lambda>n. length (snd n) = CHUNK_SIZE) (head t)" by (simp add: tape_ok_def)
  from node_data_length [OF p this] assms have "offset t < length (node_data (head t) (current t))"
    by (simp add: tape_ok_def)
  then show ?thesis
    by (simp add: cattle_tape_get_current_value_def cattle_tape_set_current_value_def
        node_data_store [OF p])
qed

lemma map_fst_node_store: "map fst (node_store ns p i v) = map fst ns"
  by (induction ns) auto

lemma list_all_node_store:
  "list_all (\<lambda>n. length (snd n) = k) ns \<Longrightarrow> list_all (\<lambda>n. length (snd n) = k) (node_store ns p i v)"
  by (induction ns) auto

lemma tape_ok_set_current_value:
  "tape_ok t \<Longrightarrow> tape_ok (cattle_tape_set_current_value t v)"
  by (simp add: tape_ok_def cattle_tape_set_current_value_def map_fst_node_store list_all_node_store)

lemma sint_gchar_add:
  "sint (v + word_of_int q :: gchar) = (sint v + q + 128) mod 256 - 128"
proof -
  have "sint (v + word_of_int q :: gchar) = sint (word_of_int (sint v + q) :: gchar)"
    by simp
  also have "\<dots> = signed_take_bit 7 (sint v + q)"
    by (simp only: sint_sbintrunc') simp
  also have "\<dots> = (sint v + q + 128) mod 256 - 128"
    by (simp add: signed_take_bit_eq_take_bit_shift take_bit_eq_mod)
  finally show ?thesis .
qed

lemma sint_gchar_diff:
  "sint (v - word_of_int q :: gchar) = (sint v - q + 128) mod 256 - 128"
  using sint_gchar_add [of v "- q"] by simp

lemma tape_ok_tape_with: "tape_ok (tape_with v)"
  unfolding tape_with_def by (rule tape_ok_set_current_value) (rule tape_ok_init)


text \<open>
  Claim C4. Executing an increase node, or a decrease node, adds its quantity to the
  current cell, or subtracts it, in a single write, with 8-bit signed wraparound: from
  the cell value \<open>v\<close> and the quantity \<open>q\<close> the cell comes to hold \<open>v + q\<close>, or
  \<open>v - q\<close>, reduced modulo 256 into the range from -128 to 127. So 127 + 1 is -128.
  The tape is one in use.
\<close>

theorem increase_decrease:
  assumes "tape_ok (tape self)"
  shows "(cattle_instruction_get_value i = CATTLE_INSTRUCTION_INCREASE \<longrightarrow>
           (\<exists>c. run_real_from (Suc n) self i s t =
                  then_next n i s t (self\<lparr>tape := cattle_tape_set_current_value (tape self) c\<rparr>)
              \<and> cattle_tape_get_current_value (cattle_tape_set_current_value (tape self) c) = c
              \<and> sint c = (sint (cattle_tape_get_current_value (tape self))
                           + cattle_instruction_get_quantity i + 128) mod 256 - 128))
       \<and> (cattle_instruction_get_value i = CATTLE_INSTRUCTION_DECREASE \<longrightarrow>
           (\<exists>c. run_real_from (Suc n) self i s t =
                  then_next n i s t (self\<lparr>tape := cattle_tape_set_current_value (tape self) c\<rparr>)
              \<and> cattle_tape_get_current_value (cattle_tape_set_current_value (tape self) c) = c
              \<and> sint c = (sint (cattle_tape_get_current_value (tape self))
                           - cattle_instruction_get_quantity i + 128) mod 256 - 128))"
proof (intro conjI impI)
  let ?v = "cattle_tape_get_current_value (tape self)"
  let ?q = "cattle_instruction_get_quantity i"
  assume "cattle_instruction_get_value i = CATTLE_INSTRUCTION_INCREASE"
  then have "run_real_from (Suc n) self i s t =
      then_next n i s t (self\<lparr>tape := cattle_tape_set_current_value (tape self) (?v + word_of_int ?q)\<rparr>)"
    by (simp add: run_real_from_Suc straight_def Let_def)
  with get_set_current_value [OF assms] sint_gchar_add [of ?v ?q]
  show "\<exists>c. run_real_from (Suc n) self i s t =
                  then_next n i s t (self\<lparr>tape := cattle_tape_set_current_value (tape self) c\<rparr>)
              \<and> cattle_tape_get_current_value (cattle_tape_set_current_value (tape self) c) = c
              \<and> sint c = (sint ?v + ?q + 128) mod 256 - 128"
    by blast
next
  let ?v = "cattle_tape_get_current_value (tape self)"
  let ?q = "cattle_instruction_get_quantity i"
  assume "cattle_instruction_get_value i = CATTLE_INSTRUCTION_DECREASE"
  then have "run_real_from (Suc n) self i s t =
      then_next n i s t (self\<lparr>tape := cattle_tape_set_current_value (tape self) (?v - word_of_int ?q)\<rparr>)"
    by (simp add: run_real_from_Suc straight_def Let_def)
  with get_set_current_value [OF assms] sint_gchar_diff [of ?v ?q]
  show "\<exists>c. run_real_from (Suc n) self i s t =
                  then_next n i s t (self\<lparr>tape := cattle_tape_set_current_value (tape self) c\<rparr>)
              \<and> cattle_tape_get_current_value (cattle_tape_set_current_value (tape self) c) = c
              \<and> sint c = (sint ?v - ?q + 128) mod 256 - 128"
    by blast
qed

theorem increase_decrease_witness:
  "tape_ok (tape_with 127)
   \<and> (\<exists>c. run_real 1 (interpreter_with CATTLE_ON_EOF_STORE_ZERO cattle_program_new ([], []) 127)
             (Instruction CATTLE_INSTRUCTION_INCREASE 1 None None)
           = Returned True (interpreter_with CATTLE_ON_EOF_STORE_ZERO cattle_program_new ([], []) c)
         \<and> sint c = - 128)
   \<and> (\<exists>c. run_real 1 (interpreter_with CATTLE_ON_EOF_STORE_ZERO cattle_program_new ([], []) (- 128))
             (Instruction CATTLE_INSTRUCTION_DECREASE 3 None None)
           = Returned True (interpreter_with CATTLE_ON_EOF_STORE_ZERO cattle_program_new ([], []) c)
         \<and> sint c = 125)"
proof -
  let ?S = "interpreter_with CATTLE_ON_EOF_STORE_ZERO cattle_program_new ([], [])"
  have ok: "tape_ok (tape (?S v))" for v
    by (simp add: tape_interpreter_with tape_ok_tape_with)
  from increase_decrease [OF ok [of 127], where n = 0 and s = True and t = None
      and i = "Instruction CATTLE_INSTRUCTION_INCREASE 1 None None"]
  have a: "\<exists>c. run_real 1 (?S 127) (Instruction CATTLE_INSTRUCTION_INCREASE 1 None None)
             = Returned True (?S c) \<and> sint c = - 128"
    by (simp add: run_real_def then_next_def tape_interpreter_with get_tape_with set_tape_with
        interpreter_with_tape)
  from increase_decrease [OF ok [of "- 128"], where n = 0 and s = True and t = None
      and i = "Instruction CATTLE_INSTRUCTION_DECREASE 3 None None"]
  have b: "\<exists>c. run_real 1 (?S (- 128)) (Instruction CATTLE_INSTRUCTION_DECREASE 3 None None)
             = Returned True (?S c) \<and> sint c = 125"
    by (simp add: run_real_def then_next_def tape_interpreter_with get_tape_with set_tape_with
        interpreter_with_tape)
  from a b tape_ok_tape_with show ?thesis by blast
qed

subsection \<open>Print\<close>

lemma print_loop_emits:
  "\<exists>rs. emitted (snd (print_loop k self s)) =
            emitted self @ map (OUTPUT_REQUEST (cattle_tape_get_current_value (tape self))) rs
        \<and> length rs \<le> k
        \<and> (\<forall>r \<in> set (butlast rs). r)
        \<and> (length rs < k \<longrightarrow> rs \<noteq> [] \<and> \<not> last rs)
        \<and> fst (print_loop k self s) = (if rs = [] then s else last rs)
        \<and> tape (snd (print_loop k self s)) = tape self"
proof (induction k arbitrary: self s)
  case 0
  show ?case by simp
next
  case (Suc k)
  let ?c = "cattle_tape_get_current_value (tape self)"
  obtain ok w where h: "output_request (handlers self) (world self) ?c = (ok, w)"
    by (cases "output_request (handlers self) (world self) ?c")
  let ?self1 = "self\<lparr>world := w, emitted := emitted self @ [OUTPUT_REQUEST ?c ok]\<rparr>"
  show ?case
  proof (cases ok)
    case False
    with h have "print_loop (Suc k) self s = (False, ?self1)" by (simp add: Let_def)
    then have "emitted (snd (print_loop (Suc k) self s)) = emitted self @ map (OUTPUT_REQUEST ?c) [False]
        \<and> length [False] \<le> Suc k
        \<and> (\<forall>r \<in> set (butlast [False]). r)
        \<and> (length [False] < Suc k \<longrightarrow> [False] \<noteq> [] \<and> \<not> last [False])
        \<and> fst (print_loop (Suc k) self s) = (if [False] = [] then s else last [False])
        \<and> tape (snd (print_loop (Suc k) self s)) = tape self"
      using False by simp
    then show ?thesis by blast
  next
    case True
    with h have eq: "print_loop (Suc k) self s = print_loop k ?self1 True" by (simp add: Let_def)
    from Suc [of ?self1 True] obtain rs where
      rs: "emitted (snd (print_loop k ?self1 True)) =
             (emitted self @ [OUTPUT_REQUEST ?c True]) @ map (OUTPUT_REQUEST ?c) rs"
        "length rs \<le> k" "\<forall>r \<in> set (butlast rs). r"
        "length rs < k \<longrightarrow> rs \<noteq> [] \<and> \<not> last rs"
        "fst (print_loop k ?self1 True) = (if rs = [] then True else last rs)"
        "tape (snd (print_loop k ?self1 True)) = tape self"
      using True by auto
    have "emitted (snd (print_loop (Suc k) self s)) = emitted self @ map (OUTPUT_REQUEST ?c) (True # rs)
        \<and> length (True # rs) \<le> Suc k
        \<and> (\<forall>r \<in> set (butlast (True # rs)). r)
        \<and> (length (True # rs) < Suc k \<longrightarrow> True # rs \<noteq> [] \<and> \<not> last (True # rs))
        \<and> fst (print_loop (Suc k) self s) = (if True # rs = [] then s else last (True # rs))
        \<and> tape (snd (print_loop (Suc k) self s)) = tape self"
      unfolding eq using rs True by (auto simp del: print_loop.simps)
    then show ?thesis by blast
  qed
qed


text \<open>
  Claim C9. Executing a print node with quantity \<open>n\<close> emits the output signal with
  the value of the current cell at most \<open>n\<close> times and stops at the first emission
  that reports failure: every emission but the last one reported success, and when
  there are fewer than \<open>n\<close> of them the last one reported failure. The node leaves in
  \<^verbatim>\<open>success\<close> what the last emission returned.
\<close>

theorem print_stops_at_failure:
  assumes "cattle_instruction_get_value i = CATTLE_INSTRUCTION_PRINT"
  shows "\<exists>rs self'.
           run_real_from (Suc n) self i s t = then_next n i (if rs = [] then s else last rs) t self'
         \<and> emitted self' =
             emitted self @ map (OUTPUT_REQUEST (cattle_tape_get_current_value (tape self))) rs
         \<and> length rs \<le> nat (cattle_instruction_get_quantity i)
         \<and> (\<forall>r \<in> set (butlast rs). r)
         \<and> (length rs < nat (cattle_instruction_get_quantity i) \<longrightarrow> rs \<noteq> [] \<and> \<not> last rs)
         \<and> tape self' = tape self"
proof -
  let ?k = "nat (cattle_instruction_get_quantity i)"
  let ?p = "print_loop ?k self s"
  from assms have "run_real_from (Suc n) self i s t = then_next n i (fst ?p) t (snd ?p)"
    by (simp add: run_real_from_Suc straight_def Let_def split: prod.splits)
  moreover from print_loop_emits [of ?k self s] obtain rs where
    "emitted (snd ?p) = emitted self @ map (OUTPUT_REQUEST (cattle_tape_get_current_value (tape self))) rs"
    "length rs \<le> ?k" "\<forall>r \<in> set (butlast rs). r" "length rs < ?k \<longrightarrow> rs \<noteq> [] \<and> \<not> last rs"
    "fst ?p = (if rs = [] then s else last rs)" "tape (snd ?p) = tape self"
    by blast
  ultimately show ?thesis
    by (intro exI [of _ rs] exI [of _ "snd ?p"]) simp
qed

theorem print_stops_at_failure_witness:
  "(\<exists>self'. run_real 1 (interpreter_with CATTLE_ON_EOF_STORE_ZERO cattle_program_new
                ([True, False, True], []) 7) (Instruction CATTLE_INSTRUCTION_PRINT 3 None None)
             = Returned False self'
         \<and> emitted self' = [OUTPUT_REQUEST 7 True, OUTPUT_REQUEST 7 False]
         \<and> world self' = ([True], []))
   \<and> (\<exists>rs self'. run_real 1 (interpreter_with CATTLE_ON_EOF_STORE_ZERO cattle_program_new
                ([True, False, True], []) 7) (Instruction CATTLE_INSTRUCTION_PRINT 3 None None)
             = Returned (last rs) self'
         \<and> emitted self' = map (OUTPUT_REQUEST 7) rs \<and> length rs \<le> 3)"
proof -
  let ?S = "interpreter_with CATTLE_ON_EOF_STORE_ZERO cattle_program_new ([True, False, True], []) 7"
  let ?i = "Instruction CATTLE_INSTRUCTION_PRINT 3 None None"
  have e: "emitted ?S = []" "cattle_tape_get_current_value (tape ?S) = 7"
    by (simp_all add: interpreter_with_def cattle_interpreter_new_def get_tape_with)
  have a: "\<exists>self'. run_real 1 ?S ?i = Returned False self'
         \<and> emitted self' = [OUTPUT_REQUEST 7 True, OUTPUT_REQUEST 7 False]
         \<and> world self' = ([True], [])"
    by (simp add: run_real_def run_real_from_Suc straight_def then_next_def eval_nat_numeral
        interpreter_with_def cattle_interpreter_new_def get_tape_with scripted_def Let_def)
  from print_stops_at_failure [where i = ?i and self = ?S and n = 0 and s = True and t = None]
  obtain rs self' where r: "run_real 1 ?S ?i = then_next 0 ?i (if rs = [] then True else last rs) None self'"
    "emitted self' = map (OUTPUT_REQUEST 7) rs" "length rs \<le> 3"
    by (auto simp: e run_real_def)
  with a have "rs \<noteq> []" by (auto simp: then_next_def)
  with r have "run_real 1 ?S ?i = Returned (last rs) self'
         \<and> emitted self' = map (OUTPUT_REQUEST 7) rs \<and> length rs \<le> 3"
    by (simp add: then_next_def)
  with a show ?thesis by blast
qed

subsection \<open>Read\<close>

lemma EOF_not_zero: "EOF \<noteq> (0 :: gchar)"
  by (simp add: EOF_def)

lemma store_input_EOF:
  "store_input self EOF = self\<lparr>tape := on_eof (configuration self) (tape self)\<rparr>"
  by (simp add: store_input_def on_eof_def split: cattle_on_eof_action.splits)

lemma fetch_at_end: "end_of_input_reached self \<Longrightarrow> fetch_more_input self = (None, self)"
  by (simp add: fetch_more_input_def)

lemma get_char_at_end:
  "end_of_input_reached self \<Longrightarrow> get_char_and_normalize self = Some (EOF, self)"
  by (simp add: get_char_and_normalize_def)

lemma read_loop_at_end:
  "end_of_input_reached self \<Longrightarrow> read_loop (Suc k) self s t = Some (s, Some EOF, self)"
  by (induction k arbitrary: t) (simp_all add: fetch_at_end get_char_at_end)

lemma fetch_keeps:
  "fetch_more_input self = (f, self1) \<Longrightarrow>
     tape self1 = tape self \<and> configuration self1 = configuration self
     \<and> (f = Some False \<longrightarrow> \<not> end_of_input_reached self1)"
  by (auto simp: fetch_more_input_def Let_def split: if_splits prod.splits)

lemma get_char_keeps:
  "get_char_and_normalize self = Some (temp, self1) \<Longrightarrow>
     tape self1 = tape self \<and> configuration self1 = configuration self
     \<and> (end_of_input_reached self1 \<longrightarrow> temp = EOF)"
  by (auto simp: get_char_and_normalize_def Let_def split: if_splits option.splits)

lemma read_loop_keeps:
  "read_loop k self s t = Some (s', temp', self1) \<Longrightarrow>
     tape self1 = tape self \<and> configuration self1 = configuration self
     \<and> (end_of_input_reached self1 \<and> 0 < k \<longrightarrow> temp' = Some EOF)"
proof (induction k arbitrary: self s t)
  case 0
  then show ?case by simp
next
  case (Suc k)
  obtain f selfA where f: "fetch_more_input self = (f, selfA)"
    by (cases "fetch_more_input self")
  note fk = fetch_keeps [OF f]
  show ?case
  proof (cases "f = Some False")
    case True
    with f Suc.prems have "self1 = selfA" by simp
    with fk True show ?thesis by simp
  next
    case False
    with f Suc.prems obtain temp1 selfB where
      g: "get_char_and_normalize selfA = Some (temp1, selfB)"
      and r: "read_loop k selfB (case f of None \<Rightarrow> s | Some x \<Rightarrow> x) (Some temp1)
                = Some (s', temp', self1)"
      by (cases f; cases "get_char_and_normalize selfA") (auto split: bool.splits)
    note gk = get_char_keeps [OF g]
    show ?thesis
    proof (cases k)
      case 0
      with r gk fk show ?thesis by auto
    next
      case (Suc j)
      with Suc.IH [OF r] gk fk show ?thesis by simp
    qed
  qed
qed

lemma read_loop_literal_end:
  assumes "had_input self" "input_cursor self = Some []"
      and "cattle_program_get_input (program self) \<noteq> None" "\<not> end_of_input_reached self"
  shows "read_loop (Suc k) self s t = Some (s, Some 0, self)"
proof -
  from assms have f: "fetch_more_input self = (None, self)"
    by (simp add: fetch_more_input_def)
  from assms have g: "get_char_and_normalize self = Some (0, self)"
    by (auto simp: get_char_and_normalize_def g_utf8_get_char_def)
  show ?thesis by (induction k arbitrary: t) (simp_all add: f g)
qed


text \<open>
  A read node of quantity at least 1 that is executed with the end-of-input flag
  already set returns with the on-EOF action of the configuration applied to the
  current cell: 0 stored, the EOF value stored, or the cell left as it is.
\<close>

theorem read_with_flag_set:
  assumes "cattle_instruction_get_value i = CATTLE_INSTRUCTION_READ"
      and "1 \<le> cattle_instruction_get_quantity i"
      and "end_of_input_reached self"
  shows "run_real_from (Suc n) self i s t =
           then_next n i s (Some EOF)
             (self\<lparr>tape := on_eof (configuration self) (tape self)\<rparr>)"
proof -
  from assms(2) obtain k where k: "nat (cattle_instruction_get_quantity i) = Suc k"
    by (cases "nat (cattle_instruction_get_quantity i)") auto
  show ?thesis
    using assms(1) read_loop_at_end [OF assms(3), of k s t]
    by (simp add: run_real_from_Suc straight_def Let_def k store_input_EOF)
qed

theorem read_with_flag_set_witness:
  "end_of_input_reached
      ((interpreter_with CATTLE_ON_EOF_STORE_EOF (program_of read_two None) ([], []) 5)
         \<lparr>end_of_input_reached := True\<rparr>)
   \<and> (\<exists>self'. run_real 1
          ((interpreter_with CATTLE_ON_EOF_STORE_EOF (program_of read_two None) ([], []) 5)
             \<lparr>end_of_input_reached := True\<rparr>) read_two = Returned True self'
        \<and> cattle_tape_get_current_value (tape self') = EOF)"
proof -
  let ?S1 = "(interpreter_with CATTLE_ON_EOF_STORE_EOF (program_of read_two None) ([], []) 5)
         \<lparr>end_of_input_reached := True\<rparr>"
  have i: "cattle_instruction_get_value read_two = CATTLE_INSTRUCTION_READ"
    "1 \<le> cattle_instruction_get_quantity read_two" "cattle_instruction_get_next read_two = None"
    by (simp_all add: read_two_def)
  have e1: "end_of_input_reached ?S1" by simp
  from read_with_flag_set [OF i(1,2) e1, where n = 0 and s = True and t = None]
  have a: "\<exists>self'. run_real 1 ?S1 read_two = Returned True self'
        \<and> cattle_tape_get_current_value (tape self') = EOF"
    by (simp add: run_real_def then_next_def i(3) interpreter_with_def cattle_interpreter_new_def
        on_eof_def configured_def set_tape_with get_tape_with)
  from e1 a show ?thesis by blast
qed


text \<open>
  Claim C8 says that a read at the end of the input applies the configured on-EOF
  action to the current cell. \<open>run_real\<close> does so when the input comes from the
  input handler, and does not when it is the literal input of the program: there the
  end of the text is not turned into the EOF value and the read stores 0, whatever
  the action. After \<^verbatim>\<open>,>+\<close> on the literal input \<^verbatim>\<open>a\<close> the input is used up and
  the current cell holds 1. The read that \<^verbatim>\<open>,>+,\<close> then makes leaves 0 in the cell
  when the action is to leave it unchanged, and 0 again, not the EOF value, when the
  action is to store the EOF value; no handler is called and the end-of-input flag
  stays unset. The same program on the same input given by the handler (the line
  \<^verbatim>\<open>a\<close>, then no more input) leaves 1 in the cell under the first action and the
  EOF value under the second, as the claim says.
\<close>

theorem read_literal_end_ignores_action:
  "(case cattle_interpreter_run 3
       (cattle_interpreter_new (configured CATTLE_ON_EOF_DO_NOTHING)
          (program_of read_right_up (Some [97])) scripted ([], [])) of
      Returned s self' \<Rightarrow>
        s \<and> input_cursor self' = Some [] \<and> cattle_tape_get_current_value (tape self') = 1
    | _ \<Rightarrow> False)
   \<and> (case cattle_interpreter_run 4
       (cattle_interpreter_new (configured CATTLE_ON_EOF_DO_NOTHING)
          (program_of read_right_up_read (Some [97])) scripted ([], [])) of
      Returned s self' \<Rightarrow>
        s \<and> emitted self' = [] \<and> \<not> end_of_input_reached self'
        \<and> cattle_tape_get_current_value (tape self') = 0
    | _ \<Rightarrow> False)
   \<and> (case cattle_interpreter_run 4
       (cattle_interpreter_new (configured CATTLE_ON_EOF_STORE_EOF)
          (program_of read_right_up_read (Some [97])) scripted ([], [])) of
      Returned s self' \<Rightarrow>
        s \<and> emitted self' = [] \<and> \<not> end_of_input_reached self'
        \<and> cattle_tape_get_current_value (tape self') = 0
        \<and> cattle_tape_get_current_value (tape self') \<noteq> EOF
    | _ \<Rightarrow> False)
   \<and> (case cattle_interpreter_run 4
       (cattle_interpreter_new (configured CATTLE_ON_EOF_DO_NOTHING)
          (program_of read_right_up_read None) scripted ([], [(True, Some [97])])) of
      Returned s self' \<Rightarrow>
        s \<and> emitted self' = [INPUT_REQUEST True, INPUT_REQUEST True]
        \<and> end_of_input_reached self'
        \<and> cattle_tape_get_current_value (tape self') = 1
    | _ \<Rightarrow> False)
   \<and> (case cattle_interpreter_run 4
       (cattle_interpreter_new (configured CATTLE_ON_EOF_STORE_EOF)
          (program_of read_right_up_read None) scripted ([], [(True, Some [97])])) of
      Returned s self' \<Rightarrow>
        s \<and> emitted self' = [INPUT_REQUEST True, INPUT_REQUEST True]
        \<and> end_of_input_reached self'
        \<and> cattle_tape_get_current_value (tape self') = EOF
    | _ \<Rightarrow> False)"
  by code_simp


text \<open>
  Claim C2 says that a read node of quantity \<open>n\<close> stores on each of its \<open>n\<close>
  repetitions. \<open>run_real\<close> stores once, after the loop. On the input line \<^verbatim>\<open>a\<close>
  followed by the end of the input, with the action that leaves the cell unchanged,
  the node of \<^verbatim>\<open>,,\<close> consumes \<^verbatim>\<open>a\<close> and leaves the cell 0, where the two nodes of
  \<^verbatim>\<open>,\<close> and \<^verbatim>\<open>,\<close> leave 97 in it.
\<close>

theorem read_two_stores_once:
  "(case cattle_interpreter_run 1
       (cattle_interpreter_new (configured CATTLE_ON_EOF_DO_NOTHING)
          (program_of read_two None) scripted ([], [(True, Some [97])])) of
      Returned s self' \<Rightarrow>
        s \<and> emitted self' = [INPUT_REQUEST True, INPUT_REQUEST True]
        \<and> end_of_input_reached self'
        \<and> cattle_tape_get_current_value (tape self') = 0
    | _ \<Rightarrow> False)
   \<and> (case cattle_interpreter_run 2
       (cattle_interpreter_new (configured CATTLE_ON_EOF_DO_NOTHING)
          (program_of read_read None) scripted ([], [(True, Some [97])])) of
      Returned s self' \<Rightarrow>
        s \<and> emitted self' = [INPUT_REQUEST True, INPUT_REQUEST True]
        \<and> end_of_input_reached self'
        \<and> cattle_tape_get_current_value (tape self') = 97
    | _ \<Rightarrow> False)"
  by code_simp


subsection \<open>A handler that fails inside a loop\<close>

text \<open>
  Claim C1 says that a failure signalled while a loop body is executed stops the loop
  and makes every enclosing call return failure. The \<^verbatim>\<open>while\<close> loop of \<open>run_real\<close>
  tests the current cell only. In \<^verbatim>\<open>+[.-]\<close> with an output handler that fails once,
  the first pass over the body is abandoned at the print node with the cell still 1,
  the body is run again, the output signal is emitted a second time, and the run
  returns success.
\<close>

theorem loop_goes_on_after_failure:
  "case cattle_interpreter_run 8
       (cattle_interpreter_new (configured CATTLE_ON_EOF_STORE_ZERO)
          (program_of up_loop_print_down None) scripted ([False], [])) of
     Returned s self' \<Rightarrow>
       s \<and> emitted self' = [OUTPUT_REQUEST 1 False, OUTPUT_REQUEST 1 True]
       \<and> cattle_tape_get_current_value (tape self') = 0
   | _ \<Rightarrow> False"
  by code_simp

text \<open>
  With an output handler that always fails, every pass over the body of \<^verbatim>\<open>+[.]\<close> is
  abandoned with the cell still 1, and the run never returns: no fuel is enough.
\<close>

lemma failing_print_pass:
  assumes "handlers self = output_fails"
  shows "\<exists>self1. run_real_from (Suc n) self print_end True None = Returned False self1
           \<and> tape self1 = tape self \<and> handlers self1 = handlers self"
  using assms
  by (simp add: run_real_from_Suc straight_def then_next_def print_end_def output_fails_def Let_def)

lemma failing_print_loop:
  "handlers self = output_fails \<Longrightarrow> cattle_tape_get_current_value (tape self) \<noteq> 0
   \<Longrightarrow> run_real_loop n self print_end s = OutOfFuel"
proof (induction n arbitrary: self s)
  case 0
  show ?case by simp
next
  case (Suc n)
  show ?case
  proof (cases n)
    case 0
    with Suc.prems show ?thesis by simp
  next
    case (Suc m)
    from failing_print_pass [OF Suc.prems(1), of m] obtain self1 where
      p: "run_real_from n self print_end True None = Returned False self1"
      and k: "tape self1 = tape self" "handlers self1 = handlers self"
      using Suc by auto
    from Suc.IH [of self1 False] Suc.prems k have "run_real_loop n self1 print_end False = OutOfFuel"
      by simp
    with p Suc.prems(2) show ?thesis by simp
  qed
qed


theorem failing_output_never_returns:
  "cattle_interpreter_run n
     (cattle_interpreter_new (configured CATTLE_ON_EOF_STORE_ZERO)
        (program_of up_loop_print None) output_fails ()) = OutOfFuel"
proof (cases n)
  case 0
  then show ?thesis by (simp add: cattle_interpreter_run_def run_real_def Let_def)
next
  case n: (Suc m)
  let ?S = "cattle_interpreter_new (configured CATTLE_ON_EOF_STORE_ZERO)
        (program_of up_loop_print None) output_fails ()"
  let ?T = "?S\<lparr>input_cursor := None, tape := tape_with 1\<rparr>"
  have t: "cattle_tape_set_current_value cattle_tape_init 1 = tape_with 1"
    by (simp add: tape_with_def)
  have g: "cattle_tape_get_current_value cattle_tape_init = 0"
    by (simp add: cattle_tape_get_current_value_def cattle_tape_init_def g_list_append_def
        alloc0_def CHUNK_SIZE_def)
  have l: "run_real_loop k ?T print_end True = OutOfFuel" for k
    by (rule failing_print_loop) (simp_all add: cattle_interpreter_new_def get_tape_with)
  show ?thesis
  proof (cases m)
    case 0
    with n show ?thesis
      by (simp add: cattle_interpreter_run_def run_real_def Let_def run_real_from_Suc straight_def
          then_next_def up_loop_print_def program_of_def cattle_interpreter_new_def)
  next
    case (Suc k)
    with n l [of k] show ?thesis
      by (simp add: cattle_interpreter_run_def run_real_def Let_def run_real_from_Suc straight_def
          then_next_def up_loop_print_def program_of_def cattle_interpreter_new_def g t)
  qed
qed

section \<open>Loading a program\<close>

lemma load_examples:
  "cattle_program_load old (Some [43, 43, 43, 62, 45, 60, 91, 45, 93]) =
     (None, program_of
        (Instruction CATTLE_INSTRUCTION_INCREASE 3
          (Some (Instruction CATTLE_INSTRUCTION_MOVE_RIGHT 1
            (Some (Instruction CATTLE_INSTRUCTION_DECREASE 1
              (Some (Instruction CATTLE_INSTRUCTION_MOVE_LEFT 1
                (Some (Instruction CATTLE_INSTRUCTION_LOOP_BEGIN 1 None
                  (Some (Instruction CATTLE_INSTRUCTION_DECREASE 1
                    (Some (Instruction CATTLE_INSTRUCTION_LOOP_END 1 None None)) None))))
                None)) None)) None)) None) None)"
  "cattle_program_load old (Some [44, 33, 115, 111]) =
     (None, program_of (Instruction CATTLE_INSTRUCTION_READ 1 None None) (Some [115, 111]))"
  "cattle_program_load old (Some [93]) =
     (Some CATTLE_PROGRAM_ERROR_UNMATCHED_BRACKET, cattle_program_new)"
  by (simp_all add: cattle_program_load_def operator_def sentinel_def program_of_def)


text \<open>
  Claim C7. Loading the text \<^verbatim>\<open>[\<close> fails with the unbalanced-brackets error, and
  after any failure to load, the program holds one node doing nothing, with no
  \<^verbatim>\<open>next\<close> and no \<^verbatim>\<open>loop\<close> edge, and no input: what loading the empty text leaves.
\<close>

theorem load_failure_leaves_empty_program:
  "cattle_program_load old (Some [91]) =
     (Some CATTLE_PROGRAM_ERROR_UNBALANCED_BRACKETS, cattle_program_new)
   \<and> cattle_program_load old (Some []) = (None, cattle_program_new)
   \<and> cattle_program_new = program_of (Instruction CATTLE_INSTRUCTION_NONE 1 None None) None
   \<and> (fst (cattle_program_load old text) \<noteq> None \<longrightarrow>
        snd (cattle_program_load old text) = cattle_program_new)"
proof -
  have "cattle_program_load old (Some [91]) =
     (Some CATTLE_PROGRAM_ERROR_UNBALANCED_BRACKETS, cattle_program_new)"
    by (simp add: cattle_program_load_def operator_def sentinel_def)
  moreover have "cattle_program_load old (Some []) = (None, cattle_program_new)"
    by (simp add: cattle_program_load_def cattle_program_new_def)
  moreover have "cattle_program_new = program_of (Instruction CATTLE_INSTRUCTION_NONE 1 None None) None"
    by (simp add: cattle_program_new_def cattle_instruction_new_def program_of_def)
  moreover have "fst (cattle_program_load old text) \<noteq> None \<longrightarrow>
        snd (cattle_program_load old text) = cattle_program_new"
    by (simp add: cattle_program_load_def split: option.splits sum.splits prod.splits)
  ultimately show ?thesis by blast
qed

theorem load_failure_leaves_empty_program_witness:
  "fst (cattle_program_load (program_of read_two None) (Some [43, 93])) =
      Some CATTLE_PROGRAM_ERROR_UNMATCHED_BRACKET
   \<and> snd (cattle_program_load (program_of read_two None) (Some [43, 93])) =
      snd (cattle_program_load (program_of read_two None) (Some []))
   \<and> fst (cattle_program_load (program_of read_two None) None) =
      Some CATTLE_PROGRAM_ERROR_BAD_UTF8
   \<and> snd (cattle_program_load (program_of read_two None) None) = cattle_program_new"
proof -
  have a: "fst (cattle_program_load (program_of read_two None) (Some [43, 93])) =
      Some CATTLE_PROGRAM_ERROR_UNMATCHED_BRACKET"
    by (simp add: cattle_program_load_def operator_def sentinel_def)
  have b: "fst (cattle_program_load (program_of read_two None) None) =
      Some CATTLE_PROGRAM_ERROR_BAD_UTF8"
    by (simp add: cattle_program_load_def)
  from load_failure_leaves_empty_program [of "program_of read_two None" "Some [43, 93]"]
    load_failure_leaves_empty_program [of "program_of read_two None" None] a b
  show ?thesis by simp
qed

end
